theory Spec2Isabelle
  imports Complex_Main "HOL-Library.Product_Lexorder" "HOL-Library.List_Lexorder"
begin

section \<open>The sorted associative container\<close>

text \<open>
  Both \<open>Key\<close> and \<open>State\<close> inherit from \<open>boost::container::flat_map\<close>: a vector of
  (key, value) pairs kept strictly sorted by key.  It is modelled as an association list;
  the three ways the source writes into it are the three functions below.  A position
  hint (\<open>cend()\<close>) only speeds the insertion up, the element always lands at its sorted
  place, so the hinted calls are modelled by the same functions.

  The numeric template parameters are fixed as the repository instantiates them
  (\<open>State<Key<int>, float, float>\<close>): \<open>Int\<close> is \<open>int\<close>, and \<open>Val\<close> and \<open>Real\<close>
  are modelled by the real numbers, with \<open>conj\<close> the identity (its specialisation for
  \<open>float\<close>).  Rounding is not modelled.
\<close>

text \<open>\<open>emplace\<close> and \<open>insert\<close>: the pair is added unless the key is present already.\<close>

fun emplace :: "'k::linorder \<Rightarrow> 'v \<Rightarrow> ('k \<times> 'v) list \<Rightarrow> ('k \<times> 'v) list" where
  "emplace k v [] = [(k, v)]"
| "emplace k v ((k', v') # xs) =
     (if k < k' then (k, v) # (k', v') # xs
      else if k = k' then (k', v') # xs
      else (k', v') # emplace k v xs)"

text \<open>\<open>insert_or_assign\<close>: the pair is added, or the value of a present key overwritten.\<close>

fun insert_or_assign :: "'k::linorder \<Rightarrow> 'v \<Rightarrow> ('k \<times> 'v) list \<Rightarrow> ('k \<times> 'v) list" where
  "insert_or_assign k v [] = [(k, v)]"
| "insert_or_assign k v ((k', v') # xs) =
     (if k < k' then (k, v) # (k', v') # xs
      else if k = k' then (k', v) # xs
      else (k', v') # insert_or_assign k v xs)"

text \<open>
  The idiom \<open>pib = emplace(k, v); if (!pib.second) pib.first->second += v\<close>: the pair is
  added, or \<open>v\<close> is added to the value of a present key.
\<close>

fun emplace_add :: "'k::linorder \<Rightarrow> 'v::plus \<Rightarrow> ('k \<times> 'v) list \<Rightarrow> ('k \<times> 'v) list" where
  "emplace_add k v [] = [(k, v)]"
| "emplace_add k v ((k', v') # xs) =
     (if k < k' then (k, v) # (k', v') # xs
      else if k = k' then (k', v' + v) # xs
      else (k', v') # emplace_add k v xs)"

text \<open>The container's invariant: keys strictly increasing.\<close>

definition fm_ok :: "('k::linorder \<times> 'v) list \<Rightarrow> bool" where
  "fm_ok xs = sorted_wrt (<) (map fst xs)"

section \<open>Key\<close>

text \<open>
  A \<open>Key\<close> maps (spatial and polarization mode, distinguishability mode) to an
  occupation number; keys of a \<open>State\<close> are compared as \<open>flat_map\<close> compares, that is
  lexicographically over their entries.
\<close>

type_synonym Key = "((int \<times> int) \<times> int) list"

type_synonym SD = "(Key \<times> real) list"

text \<open>\<open>Key(a, b, c)\<close>.\<close>

definition Key3 :: "int \<Rightarrow> int \<Rightarrow> int \<Rightarrow> Key" where
  "Key3 a b c = insert_or_assign (a, b) c []"

text \<open>\<open>Key::add\<close>: occupation numbers of present entries are added.\<close>

definition Key_add :: "Key \<Rightarrow> Key \<Rightarrow> Key" where
  "Key_add K p = fold (\<lambda>(k, n) acc. emplace_add k n acc) p K"

text \<open>\<open>Key::clean\<close>: keeps the entries whose occupation number is positive.\<close>

definition Key_clean :: "Key \<Rightarrow> Key" where
  "Key_clean K = fold (\<lambda>(k, n) p. if n > 0 then insert_or_assign k n p else p) K []"

text \<open>\<open>Key::addEnd\<close>.\<close>

definition addEnd :: "int \<Rightarrow> int \<Rightarrow> int \<Rightarrow> Key \<Rightarrow> Key" where
  "addEnd a b c K = insert_or_assign (a, b) c K"

text \<open>
  \<open>Key::overlapping\<close>: \<open>col\<close> collects the total occupation of every spatial mode that
  \<open>ref\<close> names; every entry of \<open>ref\<close> is then compared with it.
\<close>

definition overlapping_col :: "Key \<Rightarrow> (int \<times> int) list \<Rightarrow> (int \<times> int) list" where
  "overlapping_col K ref =
     fold (\<lambda>((m, d), n) col. if map_of ref m \<noteq> None then emplace_add m n col else col) K []"

definition overlapping :: "Key \<Rightarrow> (int \<times> int) list \<Rightarrow> bool" where
  "overlapping K ref =
     list_all (\<lambda>(m, r). case map_of (overlapping_col K ref) m of
                           None \<Rightarrow> r = 0
                         | Some c \<Rightarrow> c = r) ref"

text \<open>
  \<open>Key::notEmpty\<close>: for one group \<open>M\<close>, the scan erases from the working copy \<open>Msub\<close>
  the first occurrence of the spatial mode of every occupied entry and succeeds as soon as
  the copy is empty.
\<close>

fun notEmpty_scan :: "int list \<Rightarrow> Key \<Rightarrow> bool" where
  "notEmpty_scan Msub [] = False"
| "notEmpty_scan Msub (((m, d), n) # es) =
     (let Msub' = (if m \<in> set Msub \<and> n > 0 then remove1 m Msub else Msub)
      in if Msub' = [] then True else notEmpty_scan Msub' es)"

definition notEmpty :: "Key \<Rightarrow> int list list \<Rightarrow> bool" where
  "notEmpty K allModes = (list_ex (\<lambda>M. notEmpty_scan M K) allModes \<or> allModes = [])"

text \<open>
  \<open>Key::sameDModeDel\<close>.  The loop returns \<open>None\<close> where the source leaves through
  \<open>return false\<close> in its body, before the assignment to the key; otherwise it returns
  the counter \<open>founds\<close> and the map \<open>p\<close>, which the source assigns to the key before it
  compares \<open>founds\<close> with \<open>m.size()\<close>.
\<close>

fun sameDModeDel_loop :: "int list \<Rightarrow> Key \<Rightarrow> int \<Rightarrow> nat \<Rightarrow> Key \<Rightarrow> (nat \<times> Key) option" where
  "sameDModeDel_loop m [] dmode founds p = Some (founds, p)"
| "sameDModeDel_loop m (((s, d), n) # es) dmode founds p =
     (if s \<in> set m \<and> n \<noteq> 0 then
        (if dmode = - 1 then sameDModeDel_loop m es d (founds + 1) p
         else if d \<noteq> dmode then None
         else sameDModeDel_loop m es dmode (founds + 1) p)
      else if n \<noteq> 0 then sameDModeDel_loop m es dmode founds (emplace (s, d) n p)
      else sameDModeDel_loop m es dmode founds p)"

definition sameDModeDel :: "Key \<Rightarrow> int list \<Rightarrow> bool \<times> Key" where
  "sameDModeDel K m =
     (case sameDModeDel_loop m K (- 1) 0 [] of
        None \<Rightarrow> (False, K)
      | Some (founds, p) \<Rightarrow> (founds = length m, p))"

section \<open>State\<close>

record State =
  terms :: SD
  waves :: "real list list"
  basis :: "real list list"
  get_ovlp :: "real list \<Rightarrow> real list \<Rightarrow> real"
  tol :: real
  lossMode :: int

text \<open>
  \<open>State()\<close>: no terms, no wave functions, the default tolerance and loss mode; the
  overlap function pointer is not initialised.
\<close>

definition State_new :: State where
  "State_new = \<lparr>terms = [], waves = [], basis = [], get_ovlp = undefined,
                 tol = 1 / 10 ^ 9, lossMode = 0\<rparr>"

text \<open>\<open>State::add(p, v)\<close>: adds the terms of \<open>p\<close>, scaled by \<open>v\<close>.\<close>

definition State_add :: "SD \<Rightarrow> real \<Rightarrow> SD \<Rightarrow> SD" where
  "State_add p v S = fold (\<lambda>(K, x) acc. emplace_add K (v * x) acc) p S"

text \<open>\<open>State::norm\<close>.\<close>

definition norm_State :: "State \<Rightarrow> real" where
  "norm_State S = sqrt (fold (\<lambda>(K, v) r. r + \<bar>v\<bar> ^ 2) (terms S) 0)"

text \<open>\<open>State::clean\<close>: keeps the terms whose amplitude exceeds the tolerance.\<close>

definition clean :: "State \<Rightarrow> State" where
  "clean S = S\<lparr>terms := fold (\<lambda>(K, v) par. if \<bar>v\<bar> > tol S then emplace K v par else par)
                             (terms S) []\<rparr>"

text \<open>
  A floating-point quotient is a number only when the divisor is not zero; \<open>fdiv\<close>
  returns \<open>None\<close> where the source would produce an infinity or a NaN.
\<close>

definition fdiv :: "real \<Rightarrow> real \<Rightarrow> real option" where
  "fdiv x y = (if y = 0 then None else Some (x / y))"

text \<open>
  \<open>State::normalise\<close>: every amplitude is divided by the norm, a zero norm being
  replaced by one first; the quotients above the tolerance are kept.
\<close>

definition normalise_step :: "real \<Rightarrow> real \<Rightarrow> Key \<times> real \<Rightarrow> SD option \<Rightarrow> SD option" where
  "normalise_step n t = (\<lambda>(K, v) acc.
     case acc of
       None \<Rightarrow> None
     | Some par \<Rightarrow>
         (case fdiv v n of
            None \<Rightarrow> None
          | Some q \<Rightarrow> Some (if \<bar>q\<bar> > t then emplace K q par else par)))"

definition normalise :: "State \<Rightarrow> State option" where
  "normalise S =
     (let n0 = norm_State S;
          n = (if n0 = 0 then 1 else n0)
      in map_option (\<lambda>par. S\<lparr>terms := par\<rparr>)
           (fold (normalise_step n (tol S)) (terms S) (Some [])))"

text \<open>
  \<open>State::overlapWithFilter\<close>: returns the receiver after the call and the returned
  state.
\<close>

definition overlapWithFilter_step ::
  "(int \<times> int) list \<Rightarrow> int list list \<Rightarrow> (int \<times> int) list list \<Rightarrow>
   Key \<times> real \<Rightarrow> SD \<times> SD \<Rightarrow> SD \<times> SD" where
  "overlapWithFilter_step ref allModes fref = (\<lambda>(K, v) (p, S).
     if overlapping K ref \<and> notEmpty K allModes then
       (if list_ex (\<lambda>m. overlapping K m) fref then (emplace K v p, S)
        else (p, emplace K v S))
     else (p, S))"

definition overlapWithFilter ::
  "State \<Rightarrow> (int \<times> int) list \<Rightarrow> int list list \<Rightarrow> (int \<times> int) list list \<Rightarrow> State \<times> State" where
  "overlapWithFilter this ref allModes fref =
     (let (p, S) = fold (overlapWithFilter_step ref allModes fref) (terms this) ([], [])
      in (this\<lparr>terms := p\<rparr>, State_new\<lparr>terms := S\<rparr>))"

text \<open>
  An entry of a key is occupied inside (outside) a list of spatial modes when its
  occupation number is not zero and its spatial mode is (is not) in the list: the two
  tests of the loop of \<open>Key::sameDModeDel\<close>.
\<close>

definition occupied_in :: "int list \<Rightarrow> (int \<times> int) \<times> int \<Rightarrow> bool" where
  "occupied_in m e = (fst (fst e) \<in> set m \<and> snd e \<noteq> 0)"

definition occupied_out :: "int list \<Rightarrow> (int \<times> int) \<times> int \<Rightarrow> bool" where
  "occupied_out m e = (fst (fst e) \<notin> set m \<and> snd e \<noteq> 0)"


section \<open>Combinatorics (KeyAux)\<close>

text \<open>
  \<open>FACUT12\<close> and \<open>facut\<close>.  The source computes with \<open>int\<close>: the table is read for
  every argument up to 12, so a negative argument reads before the table, and the
  recursion above 12 overflows from 13 on.  The model is the source's on the arguments
  0 to 12, the range its comments give; theorems about occupation numbers assume it.
\<close>

definition FACUT12 :: "int list" where
  "FACUT12 = [1, 1, 2, 6, 24, 120, 720, 5040, 40320, 362880, 3628800, 39916800, 479001600]"

function facut :: "int \<Rightarrow> int" where
  "facut i = (if i \<le> 12 then FACUT12 ! nat i else i * facut (i - 1))"
  by pat_completeness auto
termination
  by (relation "measure nat") auto

declare facut.simps [simp del]

text \<open>\<open>binomialCoeff\<close>: an integer division of factorials, converted to \<open>Val\<close>.\<close>

definition binomialCoeff :: "int \<Rightarrow> int \<Rightarrow> real" where
  "binomialCoeff n k = real_of_int (facut n div (facut k * facut (n - k)))"

section \<open>Key: the operators\<close>

text \<open>\<open>Key::factor(a, b)\<close> and \<open>Key::factor()\<close>.\<close>

definition factor2 :: "Key \<Rightarrow> int \<Rightarrow> int \<Rightarrow> real" where
  "factor2 K a b =
     sqrt (fold (\<lambda>((m, d), n) r. if m = a \<or> m = b then r * real_of_int (facut n) else r) K 1)"

definition factor :: "Key \<Rightarrow> real" where
  "factor K = sqrt (fold (\<lambda>((m, d), n) r. r * real_of_int (facut n)) K 1)"

text \<open>
  \<open>Key::apply(U, modes, tol)\<close>, the two-mode unitary.  The loop over the entries of
  the key carries \<open>Ret\<close>; the containers \<open>RetIter\<close> and \<open>RetIter2\<close> are empty at the
  start of every round (they are cleared, or moved from, at the end of the round before).

  An entry at another mode is written into every key of \<open>Ret\<close>.
\<close>

definition apply_pass :: "int \<Rightarrow> int \<Rightarrow> int \<Rightarrow> SD \<Rightarrow> SD" where
  "apply_pass m d n Ret =
     fold (\<lambda>(K, v) RetIter. insert_or_assign (insert_or_assign (m, d) n K) v RetIter) Ret []"

text \<open>
  For an entry at one of the two modes, the loop over \<open>j = 0, ..., n\<close> builds one
  branch for every way to split the \<open>n\<close> photons; \<open>i\<close> is 0 for an entry at
  \<open>modes[0]\<close> and 1 for one at \<open>modes[1]\<close>.
\<close>

definition apply_amp :: "real list \<Rightarrow> nat \<Rightarrow> int \<Rightarrow> int \<Rightarrow> real" where
  "apply_amp U i n j =
     (1 * ((U ! i) ^ nat j * binomialCoeff n j))
       * ((U ! (i + 2)) ^ nat (n - j) / sqrt (real_of_int (facut n)))"

definition apply_branches :: "real list \<Rightarrow> int list \<Rightarrow> nat \<Rightarrow> int \<Rightarrow> int \<Rightarrow> SD" where
  "apply_branches U modes i d n =
     fold (\<lambda>j RetIter.
             insert_or_assign
               (Key_clean (insert_or_assign (modes ! 1, d) (n - j) (Key3 (modes ! 0) d j)))
               (apply_amp U i n j) RetIter)
          [0..n] []"

text \<open>The branches are multiplied with the keys collected so far.\<close>

definition apply_conv :: "SD \<Rightarrow> SD \<Rightarrow> SD" where
  "apply_conv RetIter Ret =
     fold (\<lambda>(Ki, vi) RetIter2.
             fold (\<lambda>(Kr, vr) R2. emplace_add (Key_add Ki Kr) (vi * vr) R2) Ret RetIter2)
          RetIter []"

definition apply_entry :: "real list \<Rightarrow> int list \<Rightarrow> (int \<times> int) \<times> int \<Rightarrow> SD \<Rightarrow> SD" where
  "apply_entry U modes = (\<lambda>((m, d), n) Ret.
     if m \<noteq> modes ! 0 \<and> m \<noteq> modes ! 1 then apply_pass m d n Ret
     else apply_conv (apply_branches U modes (if m = modes ! 0 then 0 else 1) d n) Ret)"

text \<open>
  The last loop keeps the keys whose amplitude, before the normalization factor is
  applied, exceeds the tolerance, and multiplies the amplitude by the factor.
\<close>

definition apply_finish :: "int list \<Rightarrow> real \<Rightarrow> SD \<Rightarrow> SD" where
  "apply_finish modes t Ret =
     fold (\<lambda>(K, v) RetIter.
             if \<bar>v\<bar> > t
             then insert_or_assign K (v * factor2 K (modes ! 0) (modes ! 1)) RetIter
             else RetIter)
          Ret []"

definition Key_apply :: "Key \<Rightarrow> real list \<Rightarrow> int list \<Rightarrow> real \<Rightarrow> SD" where
  "Key_apply K U modes t = apply_finish modes t (fold (apply_entry U modes) K [([], 1)])"

text \<open>\<open>Key::apply(U, mode)\<close>, the phase on one mode.\<close>

definition Key_apply1 :: "Key \<Rightarrow> real \<Rightarrow> int \<Rightarrow> real" where
  "Key_apply1 K U mode =
     power_int U (fold (\<lambda>((m, d), n) a. if m = mode then a + n else a) K 0)"

text \<open>\<open>Key::swap\<close>.\<close>

definition Key_swap :: "Key \<Rightarrow> int \<Rightarrow> int \<Rightarrow> Key" where
  "Key_swap K a b =
     fold (\<lambda>((m, d), n) par. emplace (if m = a then b else if m = b then a else m, d) n par)
          K []"

text \<open>
  \<open>Key::loss\<close>.  \<open>find_pos\<close> is the position of the first occurrence of a mode in
  \<open>modes\<close>, or the length of \<open>modes\<close>: the source's
  \<open>s - (modes.cend() - std::find(...))\<close>.  The loop visits the entries of the copy
  \<open>k\<close> by position; the entry visited is decremented for the copy \<open>k2\<close> and restored;
  \<open>lM\<close> is the parameter \<open>lossMode\<close> and \<open>tot\<close> the counter \<open>total\<close>.
  The function returns the map and the new value of the reference \<open>maxLM\<close>.
\<close>

fun find_pos :: "int list \<Rightarrow> int \<Rightarrow> nat" where
  "find_pos [] x = 0"
| "find_pos (y # ys) x = (if y = x then 0 else Suc (find_pos ys x))"

definition loss_step :: "int list \<Rightarrow> int \<Rightarrow> Key \<Rightarrow> nat \<Rightarrow> SD \<times> int \<times> int \<Rightarrow> SD \<times> int \<times> int" where
  "loss_step modes lM k i = (\<lambda>(R, tot, maxLM).
     case k ! i of ((m, d), n) \<Rightarrow>
       (let j = int (find_pos modes m);
            s = int (length modes)
        in if j \<noteq> s \<and> n > 0 then
             (insert_or_assign
                (insert_or_assign (lM + j, d) 1 (k[i := ((m, d), n - 1)]))
                (sqrt (real_of_int ((n - 1) + 1))) R,
              tot + n,
              if lM + j \<ge> maxLM then lM + j + 1 else maxLM)
           else (R, tot, maxLM)))"

definition Key_loss :: "Key \<Rightarrow> int list \<Rightarrow> int \<Rightarrow> int \<Rightarrow> SD \<times> int" where
  "Key_loss k modes lM maxLM =
     (case fold (loss_step modes lM k) [0..<length k] ([], 0, maxLM) of
        (R, tot, maxLM') \<Rightarrow>
          if tot = 0 then (insert_or_assign k 1 R, maxLM')
          else (map (\<lambda>(k', v). (k', v / sqrt (real_of_int tot))) R, maxLM'))"

text \<open>
  \<open>Key::collapse\<close>: \<open>f.at\<close> throws for a distinguishability mode that \<open>f\<close> does not
  map, which is the result \<open>None\<close>.
\<close>

definition collapse_step :: "(int \<times> int) list \<Rightarrow> (int \<times> int) \<times> int \<Rightarrow> Key option \<Rightarrow> Key option" where
  "collapse_step f = (\<lambda>((a, d), n) acc.
     case acc of
       None \<Rightarrow> None
     | Some p \<Rightarrow> (case map_of f d of
                    None \<Rightarrow> None
                  | Some b \<Rightarrow> Some (emplace_add (a, b) n p)))"

definition Key_collapse :: "Key \<Rightarrow> (int \<times> int) list \<Rightarrow> real \<Rightarrow> (Key \<times> real) option" where
  "Key_collapse K f amp =
     (case fold (collapse_step f) K (Some []) of
        None \<Rightarrow> None
      | Some p \<Rightarrow> Some (p, amp * (factor p / factor K)))"

text \<open>
  Modelled from the spec: \<open>Key::incr\<close>, which \<open>State::addPhoton\<close> calls and no file of
  the repository defines.  The spec has every key "extended in place by adding \<open>count\<close>
  occupation at (spatial_mode, matched_index)": the occupation is added to a present
  entry, and a new entry is made otherwise.
\<close>

definition incr :: "int \<Rightarrow> int \<Rightarrow> int \<Rightarrow> Key \<Rightarrow> Key" where
  "incr a b c K = emplace_add (a, b) c K"

section \<open>Overlaps of wave functions (StateAux)\<close>

text \<open>
  \<open>ovlpH\<close> and \<open>ovlp\<close>.  Both index \<open>waves\<close> by the positions of a coefficient
  vector, which must not be longer than \<open>waves\<close>.
\<close>

definition ovlpH ::
  "real list \<Rightarrow> real list \<Rightarrow> (real list \<Rightarrow> real list \<Rightarrow> real) \<Rightarrow> real list list \<Rightarrow> real" where
  "ovlpH b wfn g ws = fold (\<lambda>i res. res + (b ! i) * g (ws ! i) wfn) [0..<length b] 0"

definition ovlp ::
  "real list \<Rightarrow> real list \<Rightarrow> (real list \<Rightarrow> real list \<Rightarrow> real) \<Rightarrow> real list list \<Rightarrow> real" where
  "ovlp b c g ws = fold (\<lambda>i res. res + (c ! i) * ovlpH b (ws ! i) g ws) [0..<length c] 0"

section \<open>State: the operators\<close>

text \<open>
  \<open>State::addBasisElem\<close>: one round of the Gram-Schmidt loop, then the function.  It
  returns the state with the new wave function and basis vector, and the vector
  \<open>decomp\<close>; \<open>None\<close> is the division of the new vector by a zero norm.
\<close>

definition gs_step ::
  "State \<Rightarrow> real list \<Rightarrow> nat \<Rightarrow> real list \<times> real list \<Rightarrow> real list \<times> real list" where
  "gs_step S wfn i = (\<lambda>(bNew, decomp).
     let ov = - ovlpH (basis S ! i) wfn (get_ovlp S) (waves S)
     in (fold (\<lambda>j bN. bN[j := bN ! j + (basis S ! i) ! j * ov]) [0..<length (basis S ! i)] bNew,
         decomp @ [- ov]))"

definition addBasisElem :: "State \<Rightarrow> real list \<Rightarrow> (State \<times> real list) option" where
  "addBasisElem S wfn =
     (case fold (gs_step S wfn) [0..<length (basis S)] (replicate (length (basis S)) 0, []) of
        (bNew0, decomp0) \<Rightarrow>
          (let bNew1 = bNew0 @ [1];
               waves' = waves S @ [wfn];
               normC = ovlp bNew1 bNew1 (get_ovlp S) waves';
               nrm = \<bar>normC\<bar>
           in if sqrt nrm = 0 then None
              else
                (let bNew = map (\<lambda>x. x / sqrt nrm) bNew1;
                     decomp1 = decomp0 @ [ovlpH bNew wfn (get_ovlp S) waves'];
                     norm2 = fold (\<lambda>a r. r + \<bar>a\<bar> ^ 2) decomp1 0;
                     decomp = (if norm2 \<noteq> 0 then map (\<lambda>a. a / sqrt norm2) decomp1
                               else decomp1)
                 in Some (S\<lparr>waves := waves', basis := basis S @ [bNew]\<rparr>, decomp))))"

text \<open>
  \<open>State::addPhoton\<close>.  \<open>find_wave\<close> is the search for a stored wave function whose
  overlap with the new one has absolute value exactly 1; it returns the first position.
\<close>

fun find_wave ::
  "(real list \<Rightarrow> real list \<Rightarrow> real) \<Rightarrow> real list \<Rightarrow> real list list \<Rightarrow> nat \<Rightarrow> nat option" where
  "find_wave g wfn [] i = None"
| "find_wave g wfn (w # ws) i = (if \<bar>g wfn w\<bar> = 1 then Some i else find_wave g wfn ws (Suc i))"

definition addPhoton :: "State \<Rightarrow> real list \<Rightarrow> int \<Rightarrow> int \<Rightarrow> State option" where
  "addPhoton S0 wfn mode num =
     (let S = (if mode \<ge> lossMode S0 then S0\<lparr>lossMode := mode + 1\<rparr> else S0)
      in if length (terms S) = 0 then
           Some (S\<lparr>terms := insert_or_assign (Key3 mode 0 num) 1 (terms S),
                   waves := waves S @ [wfn],
                   basis := basis S @ [[1]]\<rparr>)
         else
           (case find_wave (get_ovlp S) wfn (waves S) 0 of
              Some index \<Rightarrow>
                Some (S\<lparr>terms :=
                  fold (\<lambda>(K, v) SNew. emplace (incr mode (int index) num K) v SNew)
                       (terms S) []\<rparr>)
            | None \<Rightarrow>
                (case addBasisElem S wfn of
                   None \<Rightarrow> None
                 | Some (S', decomp) \<Rightarrow>
                     Some (S'\<lparr>terms :=
                       fold (\<lambda>(K, v) SNew.
                               fold (\<lambda>i SN. emplace (addEnd mode (int i) num K)
                                                      (v * decomp ! i) SN)
                                    [0..<length decomp] SNew)
                            (terms S) []\<rparr>))))"

text \<open>\<open>State::apply(U, modes)\<close>, \<open>State::apply(U, mode)\<close> and \<open>State::swap\<close>.\<close>

definition apply_State :: "State \<Rightarrow> real list \<Rightarrow> int list \<Rightarrow> State" where
  "apply_State S U modes =
     clean (S\<lparr>terms :=
       fold (\<lambda>(K, v) acc. State_add (Key_apply K U modes (tol S)) v acc) (terms S) []\<rparr>)"

definition apply1_State :: "State \<Rightarrow> real \<Rightarrow> int \<Rightarrow> State" where
  "apply1_State S U mode = S\<lparr>terms := map (\<lambda>(K, v). (K, v * Key_apply1 K U mode)) (terms S)\<rparr>"

definition swap_State :: "State \<Rightarrow> int \<Rightarrow> int \<Rightarrow> State" where
  "swap_State S a b =
     S\<lparr>terms := fold (\<lambda>(K, v) par. emplace (Key_swap K a b) v par) (terms S) []\<rparr>"

text \<open>\<open>State::mul\<close>.\<close>

definition mul :: "State \<Rightarrow> real \<Rightarrow> State" where
  "mul S n =
     S\<lparr>terms := fold (\<lambda>(K, v) par. if \<bar>v * n\<bar> > tol S then emplace K (v * n) par else par)
                      (terms S) []\<rparr>"

text \<open>\<open>State::overlapCompl\<close>.\<close>

definition overlapCompl :: "State \<Rightarrow> (int \<times> int) list list \<Rightarrow> int list list \<Rightarrow> State" where
  "overlapCompl S MVec allModes =
     S\<lparr>terms :=
       fold (\<lambda>(K, v) p.
               if \<not> list_ex (\<lambda>ref. overlapping K ref) MVec \<or> \<not> notEmpty K allModes
               then emplace K v p else p)
            (terms S) []\<rparr>"

text \<open>
  \<open>State::loss\<close>: every key is given the state's loss mode; \<open>maxLM\<close> starts at 0 and
  is carried from key to key.
\<close>

definition loss_term :: "int list \<Rightarrow> int \<Rightarrow> Key \<times> real \<Rightarrow> SD \<times> int \<Rightarrow> SD \<times> int" where
  "loss_term modes lm = (\<lambda>(K, v) (acc, maxLM).
     case Key_loss K modes lm maxLM of (R, maxLM') \<Rightarrow> (State_add R v acc, maxLM'))"

definition loss :: "State \<Rightarrow> int list \<Rightarrow> State" where
  "loss S modes =
     (case fold (loss_term modes (lossMode S)) (terms S) ([], 0) of
        (acc, maxLM) \<Rightarrow>
          clean (S\<lparr>terms := acc,
                   lossMode := (if maxLM > lossMode S then maxLM else lossMode S)\<rparr>))"

text \<open>
  \<open>State::collapse\<close>: \<open>f\<close> maps the position of every entry of \<open>K\<close> to its
  distinguishability mode.
\<close>

definition collapse_map :: "Key \<Rightarrow> (int \<times> int) list" where
  "collapse_map K =
     fold (\<lambda>(j, ((m, d), n)) f. insert_or_assign (int j) d f) (enumerate 0 K) []"

definition collapse_term :: "(int \<times> int) list \<Rightarrow> Key \<times> real \<Rightarrow> SD option \<Rightarrow> SD option" where
  "collapse_term f = (\<lambda>(K2, v) acc.
     case acc of
       None \<Rightarrow> None
     | Some p \<Rightarrow> (case Key_collapse K2 f v of
                    None \<Rightarrow> None
                  | Some (K2', v') \<Rightarrow> Some (emplace_add K2' v' p)))"

definition collapse :: "State \<Rightarrow> Key \<Rightarrow> State option" where
  "collapse S K =
     map_option (\<lambda>p. S\<lparr>terms := p\<rparr>)
       (fold (collapse_term (collapse_map K)) (terms S) (Some []))"

text \<open>\<open>State::notEmpty\<close>.\<close>

definition notEmpty_State :: "State \<Rightarrow> int list list \<Rightarrow> State option" where
  "notEmpty_State S allModes =
     normalise (S\<lparr>terms :=
       fold (\<lambda>(K, v) p. if notEmpty K allModes then emplace K v p else p) (terms S) []\<rparr>)"

text \<open>
  \<open>State::sameDModeDel\<close>: for every term the groups are tried in turn, each on a fresh
  copy of the key; the first group that succeeds gives the term of the result.
\<close>

fun sameDModeDel_try :: "Key \<Rightarrow> int list list \<Rightarrow> nat \<Rightarrow> (Key \<times> nat) option" where
  "sameDModeDel_try K [] i = None"
| "sameDModeDel_try K (m # ms) i =
     (case sameDModeDel K m of
        (True, K') \<Rightarrow> Some (K', i)
      | (False, K') \<Rightarrow> sameDModeDel_try K ms (Suc i))"

definition sameDModeDel_State :: "State \<Rightarrow> int list list \<Rightarrow> real list \<Rightarrow> State" where
  "sameDModeDel_State S modes facs =
     S\<lparr>terms :=
       fold (\<lambda>(K, v) p.
               case sameDModeDel_try K modes 0 of
                 None \<Rightarrow> p
               | Some (K', i) \<Rightarrow> emplace_add K' (v * facs ! i) p)
            (terms S) []\<rparr>"

text \<open>
  A key has no occupation on a list of spatial modes when none of its entries at these
  modes has a positive occupation number: the test of the loop of \<open>Key::loss\<close> fails
  for every entry.
\<close>

definition no_occupation :: "Key \<Rightarrow> int list \<Rightarrow> bool" where
  "no_occupation K modes = list_all (\<lambda>e. \<not> (fst (fst e) \<in> set modes \<and> snd e > 0)) K"

text \<open>
  The wave functions and the basis of a state run in parallel, and no basis vector has
  more coefficients than there are wave functions: \<open>addPhoton\<close> keeps it so, and
  \<open>ovlpH\<close> and \<open>ovlp\<close> read \<open>waves\<close> within its bounds only then.
\<close>

definition wf_basis :: "State \<Rightarrow> bool" where
  "wf_basis S = (length (basis S) = length (waves S)
                 \<and> list_all (\<lambda>b. length b \<le> length (waves S)) (basis S))"

text \<open>
  \<open>trivOvlF\<close> (simAux.hpp), the overlap function the simulation sets: a wave function
  is an identifier followed by the overlap it has with every other one.
\<close>

definition trivOvlF :: "real list \<Rightarrow> real list \<Rightarrow> real" where
  "trivOvlF V W = (if V ! 0 \<noteq> W ! 0 then V ! 1 else 1)"

text \<open>
  The inverse of \<open>incr\<close> on the keys that have no entry of occupation zero at the
  pair; it serves to show that \<open>incr\<close> maps different keys to different keys.
\<close>

definition un_incr :: "int \<times> int \<Rightarrow> int \<Rightarrow> Key \<Rightarrow> Key" where
  "un_incr k c K' =
     (if map_of K' k = Some c then filter (\<lambda>e. fst e \<noteq> k) K'
      else map (\<lambda>e. if fst e = k then (k, snd e - c) else e) K')"

section \<open>Notions for the two-mode unitary\<close>

text \<open>The amplitude a map gives a key: zero for a key that is not in the map.\<close>

definition amp :: "SD \<Rightarrow> Key \<Rightarrow> real" where
  "amp R K = (case map_of R K of None \<Rightarrow> 0 | Some v \<Rightarrow> v)"


text \<open>
  Every pair of every key of the map \<open>R\<close> is a pair of the key \<open>pre\<close> or lies at one
  of the modes \<open>a\<close> and \<open>b\<close>.
\<close>

definition pairs_ok :: "SD \<Rightarrow> Key \<Rightarrow> int \<Rightarrow> int \<Rightarrow> bool" where
  "pairs_ok R pre a b =
     (\<forall>K \<in> fst ` set R. \<forall>p \<in> fst ` set K. p \<in> fst ` set pre \<or> fst p = a \<or> fst p = b)"



section \<open>Occupation numbers of the keys of a state\<close>

text \<open>
  Every occupation number of every key of a map is positive (\<open>positive_counts\<close>), or
  at least zero (\<open>nonneg_counts\<close>).
\<close>

definition positive_counts :: "SD \<Rightarrow> bool" where
  "positive_counts R = list_all (\<lambda>t. list_all (\<lambda>e. 0 < snd e) (fst t)) R"

definition nonneg_counts :: "SD \<Rightarrow> bool" where
  "nonneg_counts R = list_all (\<lambda>t. list_all (\<lambda>e. 0 \<le> snd e) (fst t)) R"

section \<open>The two-mode unitary as a substitution of creation operators\<close>

text \<open>
  A key stands for a product of creation operators, with one factor, the operator of the
  pair to the power of the occupation number, for every entry; a map from keys to
  amplitudes stands for the polynomial with these coefficients.  For an assignment \<open>x\<close>
  of numbers to the creation operators, \<open>Key_val\<close> and \<open>SD_val\<close> are the values of the
  product and of the polynomial.
\<close>

definition Key_val :: "(int \<times> int \<Rightarrow> real) \<Rightarrow> Key \<Rightarrow> real" where
  "Key_val x K = (\<Prod>e\<leftarrow>K. x (fst e) ^ nat (snd e))"

definition SD_val :: "(int \<times> int \<Rightarrow> real) \<Rightarrow> SD \<Rightarrow> real" where
  "SD_val x R = (\<Sum>t\<leftarrow>R. snd t * Key_val x (fst t))"

text \<open>
  The linear substitution on one entry, with the coefficients in the order in which
  \<open>Key::apply\<close> reads them: \<open>n\<close> photons at the mode \<open>a\<close> become
  \<open>(U[0] a' + U[2] b') ^ n / sqrt (n!)\<close>, \<open>n\<close> photons at \<open>b\<close> become
  \<open>(U[1] a' + U[3] b') ^ n / sqrt (n!)\<close>, where \<open>a'\<close> and \<open>b'\<close> carry the
  distinguishability mode of the entry, and an entry at another mode stays as it is.
\<close>

definition subst_entry ::
  "real list \<Rightarrow> int \<Rightarrow> int \<Rightarrow> (int \<times> int \<Rightarrow> real) \<Rightarrow> (int \<times> int) \<times> int \<Rightarrow> real" where
  "subst_entry U a b x = (\<lambda>((m, d), n).
     if m = a then (U ! 0 * x (a, d) + U ! 2 * x (b, d)) ^ nat n / sqrt (fact (nat n))
     else if m = b then (U ! 1 * x (a, d) + U ! 3 * x (b, d)) ^ nat n / sqrt (fact (nat n))
     else x (m, d) ^ nat n)"

text \<open>
  The substitution in the words of the specification, for \<open>U\<close> in line format
  \<open>[U00, U01, U10, U11]\<close>: the operator of \<open>a\<close> becomes \<open>U00 a' + U01 b'\<close> and the
  operator of \<open>b\<close> becomes \<open>U10 a' + U11 b'\<close>.
\<close>

definition subst_entry_rows ::
  "real list \<Rightarrow> int \<Rightarrow> int \<Rightarrow> (int \<times> int \<Rightarrow> real) \<Rightarrow> (int \<times> int) \<times> int \<Rightarrow> real" where
  "subst_entry_rows U a b x = (\<lambda>((m, d), n).
     if m = a then (U ! 0 * x (a, d) + U ! 1 * x (b, d)) ^ nat n / sqrt (fact (nat n))
     else if m = b then (U ! 2 * x (a, d) + U ! 3 * x (b, d)) ^ nat n / sqrt (fact (nat n))
     else x (m, d) ^ nat n)"

section \<open>The container's invariant\<close>

lemma emplace_append:
  "\<forall>k' \<in> fst ` set xs. k' < k \<Longrightarrow> emplace k v xs = xs @ [(k, v)]"
  by (induction xs) auto

lemma fold_emplace_filter:
  "sorted_wrt (<) (map fst (acc @ xs)) \<Longrightarrow>
   fold (\<lambda>(k, v) par. if P k v then emplace k v par else par) xs acc
     = acc @ filter (\<lambda>(k, v). P k v) xs"
proof (induction xs arbitrary: acc)
  case Nil
  then show ?case by simp
next
  case (Cons x xs)
  obtain k v where x: "x = (k, v)" by (cases x)
  from Cons.prems have lt: "\<forall>k' \<in> fst ` set acc. k' < k"
    by (auto simp: x sorted_wrt_append)
  show ?case
  proof (cases "P k v")
    case True
    have s: "sorted_wrt (<) (map fst ((acc @ [(k, v)]) @ xs))"
      using Cons.prems by (simp add: x)
    show ?thesis
      using Cons.IH [OF s] True lt by (simp add: x emplace_append)
  next
    case False
    have s: "sorted_wrt (<) (map fst (acc @ xs))"
      using Cons.prems by (auto simp: x sorted_wrt_append)
    show ?thesis
      using Cons.IH [OF s] False by (simp add: x)
  qed
qed

lemma overlapWithFilter_fold:
  "sorted_wrt (<) (map fst (p @ xs)) \<Longrightarrow> sorted_wrt (<) (map fst (S @ xs)) \<Longrightarrow>
   fold (overlapWithFilter_step ref allModes fref) xs (p, S) =
     (p @ filter (\<lambda>(K, v). overlapping K ref \<and> notEmpty K allModes
                              \<and> list_ex (\<lambda>m. overlapping K m) fref) xs,
      S @ filter (\<lambda>(K, v). overlapping K ref \<and> notEmpty K allModes
                              \<and> \<not> list_ex (\<lambda>m. overlapping K m) fref) xs)"
proof (induction xs arbitrary: p S)
  case Nil
  then show ?case by simp
next
  case (Cons x xs)
  obtain K v where x: "x = (K, v)" by (cases x)
  from Cons.prems have ltp: "\<forall>k' \<in> fst ` set p. k' < K"
    and ltS: "\<forall>k' \<in> fst ` set S. k' < K"
    by (auto simp: x sorted_wrt_append)
  have sp: "sorted_wrt (<) (map fst (p @ xs))" and sS: "sorted_wrt (<) (map fst (S @ xs))"
    using Cons.prems by (auto simp: x sorted_wrt_append)
  have sp': "sorted_wrt (<) (map fst ((p @ [(K, v)]) @ xs))"
    and sS': "sorted_wrt (<) (map fst ((S @ [(K, v)]) @ xs))"
    using Cons.prems by (simp_all add: x)
  show ?case
    using Cons.IH [OF sp sS] Cons.IH [OF sp' sS] Cons.IH [OF sp sS'] ltp ltS
    by (simp add: x overlapWithFilter_step_def emplace_append)
qed

lemma normalise_fold_one:
  "fold (normalise_step 1 t) xs (Some acc)
     = Some (fold (\<lambda>(K, v) par. if \<bar>v\<bar> > t then emplace K v par else par) xs acc)"
  by (induction xs arbitrary: acc) (auto simp: normalise_step_def fdiv_def)

lemma normalise_fold_Some:
  "n \<noteq> 0 \<Longrightarrow> \<exists>par. fold (normalise_step n t) xs (Some acc) = Some par"
  by (induction xs arbitrary: acc) (auto simp: normalise_step_def fdiv_def)


lemma sameDModeDel_loop_Some:
  "sameDModeDel_loop m es dm f p = Some (f', p') \<Longrightarrow>
   sorted_wrt (<) (map fst (p @ es)) \<Longrightarrow>
   f' = f + length (filter (occupied_in m) es) \<and> p' = p @ filter (occupied_out m) es"
proof (induction es arbitrary: dm f p)
  case Nil
  then show ?case by simp
next
  case (Cons e es)
  obtain s d n where e: "e = ((s, d), n)" by (cases e) auto
  from Cons.prems(2) have lt: "\<forall>k' \<in> fst ` set p. k' < (s, d)"
    by (auto simp: e sorted_wrt_append)
  have sp: "sorted_wrt (<) (map fst (p @ es))"
    using Cons.prems(2) by (auto simp: e sorted_wrt_append)
  have sp': "sorted_wrt (<) (map fst ((p @ [((s, d), n)]) @ es))"
    using Cons.prems(2) by (simp add: e)
  show ?case
  proof (cases "s \<in> set m \<and> n \<noteq> 0")
    case True
    then have "\<exists>dm'. sameDModeDel_loop m es dm' (f + 1) p = Some (f', p')"
      using Cons.prems(1) by (auto simp: e split: if_splits)
    then obtain dm' where "sameDModeDel_loop m es dm' (f + 1) p = Some (f', p')" ..
    from Cons.IH [OF this sp] show ?thesis
      using True by (simp add: e occupied_in_def occupied_out_def)
  next
    case False
    show ?thesis
    proof (cases "n = 0")
      case True
      then have "sameDModeDel_loop m es dm f p = Some (f', p')"
        using Cons.prems(1) by (simp add: e)
      from Cons.IH [OF this sp] show ?thesis
        using True by (simp add: e occupied_in_def occupied_out_def)
    next
      case n: False
      from False n have "sameDModeDel_loop m es dm f (p @ [((s, d), n)]) = Some (f', p')"
        using Cons.prems(1) lt by (simp add: e emplace_append)
      from Cons.IH [OF this sp'] show ?thesis
        using False n by (auto simp: e occupied_in_def occupied_out_def)
    qed
  qed
qed

lemma sameDModeDel_loop_None_dm:
  "dm \<noteq> - 1 \<Longrightarrow>
   sameDModeDel_loop m es dm f p = None \<longleftrightarrow>
     (\<exists>e \<in> set es. occupied_in m e \<and> snd (fst e) \<noteq> dm)"
proof (induction es arbitrary: f p)
  case Nil
  then show ?case by simp
next
  case (Cons e es)
  obtain s d n where e: "e = ((s, d), n)" by (cases e) auto
  show ?case
    using Cons.prems Cons.IH [OF Cons.prems]
    by (simp add: e occupied_in_def)
qed

lemma sameDModeDel_loop_None:
  "\<forall>e \<in> set es. snd (fst e) \<noteq> - 1 \<Longrightarrow>
   sameDModeDel_loop m es (- 1) f p = None \<longleftrightarrow>
     (\<exists>e1 \<in> set es. \<exists>e2 \<in> set es. occupied_in m e1 \<and> occupied_in m e2
            \<and> snd (fst e1) \<noteq> snd (fst e2))"
proof (induction es arbitrary: f p)
  case Nil
  then show ?case by simp
next
  case (Cons e es)
  obtain s d n where e: "e = ((s, d), n)" by (cases e) auto
  have d: "d \<noteq> - 1" using Cons.prems by (simp add: e)
  have rest: "\<forall>e \<in> set es. snd (fst e) \<noteq> - 1" using Cons.prems by simp
  note IH = Cons.IH [OF rest]
  show ?case
  proof (cases "occupied_in m e")
    case True
    have "sameDModeDel_loop m (e # es) (- 1) f p = sameDModeDel_loop m es d (f + 1) p"
      using True by (simp add: e occupied_in_def)
    then have "sameDModeDel_loop m (e # es) (- 1) f p = None \<longleftrightarrow>
       (\<exists>e' \<in> set es. occupied_in m e' \<and> snd (fst e') \<noteq> d)"
      using sameDModeDel_loop_None_dm [OF d] by simp
    moreover have "(\<exists>e' \<in> set es. occupied_in m e' \<and> snd (fst e') \<noteq> d) \<longleftrightarrow>
       (\<exists>e1 \<in> set (e # es). \<exists>e2 \<in> set (e # es). occupied_in m e1 \<and> occupied_in m e2
            \<and> snd (fst e1) \<noteq> snd (fst e2))"
    proof
      assume "\<exists>e' \<in> set es. occupied_in m e' \<and> snd (fst e') \<noteq> d"
      then obtain e' where "e' \<in> set es" "occupied_in m e'" "snd (fst e') \<noteq> d" by blast
      moreover have "snd (fst e) = d" by (simp add: e)
      ultimately have "e \<in> set (e # es) \<and> e' \<in> set (e # es) \<and> occupied_in m e
          \<and> occupied_in m e' \<and> snd (fst e) \<noteq> snd (fst e')"
        using True by simp
      then show "\<exists>e1 \<in> set (e # es). \<exists>e2 \<in> set (e # es). occupied_in m e1
          \<and> occupied_in m e2 \<and> snd (fst e1) \<noteq> snd (fst e2)"
        by blast
    next
      assume "\<exists>e1 \<in> set (e # es). \<exists>e2 \<in> set (e # es). occupied_in m e1
          \<and> occupied_in m e2 \<and> snd (fst e1) \<noteq> snd (fst e2)"
      then obtain e1 e2 where h: "e1 \<in> set (e # es)" "e2 \<in> set (e # es)"
        "occupied_in m e1" "occupied_in m e2" "snd (fst e1) \<noteq> snd (fst e2)" by blast
      have le: "snd (fst e) = d" by (simp add: e)
      show "\<exists>e' \<in> set es. occupied_in m e' \<and> snd (fst e') \<noteq> d"
      proof (cases "snd (fst e1) = d")
        case True
        then have "snd (fst e2) \<noteq> d" using h(5) by simp
        then have "e2 \<in> set es" using h(2) le by auto
        then show ?thesis using h(4) \<open>snd (fst e2) \<noteq> d\<close> by blast
      next
        case False
        then have "e1 \<in> set es" using h(1) le by auto
        then show ?thesis using h(3) False by blast
      qed
    qed
    ultimately show ?thesis by simp
  next
    case False
    then have "\<exists>p'. sameDModeDel_loop m (e # es) (- 1) f p = sameDModeDel_loop m es (- 1) f p'"
      by (auto simp: e occupied_in_def)
    then obtain p' where
      "sameDModeDel_loop m (e # es) (- 1) f p = sameDModeDel_loop m es (- 1) f p'" ..
    moreover have "(\<exists>e1 \<in> set es. \<exists>e2 \<in> set es. occupied_in m e1 \<and> occupied_in m e2
            \<and> snd (fst e1) \<noteq> snd (fst e2)) \<longleftrightarrow>
       (\<exists>e1 \<in> set (e # es). \<exists>e2 \<in> set (e # es). occupied_in m e1 \<and> occupied_in m e2
            \<and> snd (fst e1) \<noteq> snd (fst e2))"
      using False by simp
    ultimately show ?thesis
      using IH [of f p'] by simp
  qed
qed

section \<open>Filtering by a measurement pattern\<close>

text \<open>
  Claim C8.  \<open>overlapWithFilter\<close> splits the terms of a state three ways.  A term stays
  in the receiver exactly when its key overlaps the pattern \<open>ref\<close>, passes the
  post-selection test \<open>notEmpty\<close> and overlaps one of the fidelity references; a term
  that overlaps the pattern and passes post-selection but overlaps no fidelity reference
  is moved, key and amplitude as they are, into the returned state; every other term is
  dropped.  Every term of the input meets exactly one of the three.
\<close>

theorem overlapWithFilter_partition:
  assumes "fm_ok (terms S)"
  shows "terms (fst (overlapWithFilter S ref allModes fref))
           = filter (\<lambda>(K, v). overlapping K ref \<and> notEmpty K allModes
                                \<and> list_ex (\<lambda>m. overlapping K m) fref) (terms S)
       \<and> terms (snd (overlapWithFilter S ref allModes fref))
           = filter (\<lambda>(K, v). overlapping K ref \<and> notEmpty K allModes
                                \<and> \<not> list_ex (\<lambda>m. overlapping K m) fref) (terms S)
       \<and> (\<forall>t \<in> set (terms S).
             (t \<in> set (terms (fst (overlapWithFilter S ref allModes fref)))
                \<and> t \<notin> set (terms (snd (overlapWithFilter S ref allModes fref))))
           \<or> (t \<notin> set (terms (fst (overlapWithFilter S ref allModes fref)))
                \<and> t \<in> set (terms (snd (overlapWithFilter S ref allModes fref))))
           \<or> (t \<notin> set (terms (fst (overlapWithFilter S ref allModes fref)))
                \<and> t \<notin> set (terms (snd (overlapWithFilter S ref allModes fref)))
                \<and> \<not> (overlapping (fst t) ref \<and> notEmpty (fst t) allModes)))"
proof -
  have s: "sorted_wrt (<) (map fst ([] @ terms S))"
    using assms by (simp add: fm_ok_def)
  have f: "fold (overlapWithFilter_step ref allModes fref) (terms S) ([], []) =
     (filter (\<lambda>(K, v). overlapping K ref \<and> notEmpty K allModes
                              \<and> list_ex (\<lambda>m. overlapping K m) fref) (terms S),
      filter (\<lambda>(K, v). overlapping K ref \<and> notEmpty K allModes
                              \<and> \<not> list_ex (\<lambda>m. overlapping K m) fref) (terms S))"
    using overlapWithFilter_fold [OF s s] by simp
  show ?thesis
    by (auto simp: overlapWithFilter_def f)
qed

theorem overlapWithFilter_partition_witness:
  "fm_ok (terms \<lparr>terms = [([((0, 0), 1)], 1 / 2),
                          ([((0, 0), 1), ((2, 0), 1)], 1 / 3),
                          ([((0, 0), 2), ((2, 0), 1)], 1 / 4)],
                 waves = [], basis = [], get_ovlp = (\<lambda>v w. 0), tol = 1 / 10 ^ 9,
                 lossMode = 12\<rparr>)
   \<and> terms (fst (overlapWithFilter
        \<lparr>terms = [([((0, 0), 1)], 1 / 2),
                  ([((0, 0), 1), ((2, 0), 1)], 1 / 3),
                  ([((0, 0), 2), ((2, 0), 1)], 1 / 4)],
         waves = [], basis = [], get_ovlp = (\<lambda>v w. 0), tol = 1 / 10 ^ 9,
         lossMode = 12\<rparr> [(2, 1)] [[0]] [[(0, 1)]]))
       = [([((0, 0), 1), ((2, 0), 1)], 1 / 3)]
   \<and> terms (snd (overlapWithFilter
        \<lparr>terms = [([((0, 0), 1)], 1 / 2),
                  ([((0, 0), 1), ((2, 0), 1)], 1 / 3),
                  ([((0, 0), 2), ((2, 0), 1)], 1 / 4)],
         waves = [], basis = [], get_ovlp = (\<lambda>v w. 0), tol = 1 / 10 ^ 9,
         lossMode = 12\<rparr> [(2, 1)] [[0]] [[(0, 1)]]))
       = [([((0, 0), 2), ((2, 0), 1)], 1 / 4)]"
proof -
  let ?S = "\<lparr>terms = [([((0, 0), 1)], 1 / 2),
                  ([((0, 0), 1), ((2, 0), 1)], 1 / 3),
                  ([((0, 0), 2), ((2, 0), 1)], 1 / 4)],
         waves = [], basis = [], get_ovlp = (\<lambda>v w. 0), tol = 1 / 10 ^ 9,
         lossMode = 12::int\<rparr>"
  have ok: "fm_ok (terms ?S)"
    by (simp add: fm_ok_def)
  show ?thesis
    using ok overlapWithFilter_partition [OF ok, of "[(2, 1)]" "[[0]]" "[[(0, 1)]]"]
    by (simp add: overlapping_def overlapping_col_def notEmpty_def)
qed


section \<open>Normalising a state of norm zero\<close>

text \<open>
  Claim C9.  When the norm of a state is zero, \<open>normalise\<close> divides by one: no quotient
  fails, and the result is the state with its amplitudes as they were, pruned by the
  tolerance as \<open>clean\<close> prunes.
\<close>

theorem normalise_zero_norm:
  assumes "norm_State S = 0"
  shows "normalise S = Some (clean S)"
  using assms by (simp add: normalise_def clean_def normalise_fold_one)

theorem normalise_zero_norm_witness:
  "norm_State \<lparr>terms = [([((0, 0), 1)], 0)], waves = [], basis = [],
               get_ovlp = (\<lambda>v w. 0), tol = - 1, lossMode = 0\<rparr> = 0
   \<and> normalise \<lparr>terms = [([((0, 0), 1)], 0)], waves = [], basis = [],
               get_ovlp = (\<lambda>v w. 0), tol = - 1, lossMode = 0\<rparr>
     = Some \<lparr>terms = [([((0, 0), 1)], 0)], waves = [], basis = [],
               get_ovlp = (\<lambda>v w. 0), tol = - 1, lossMode = 0\<rparr>"
proof -
  let ?S = "\<lparr>terms = [([((0, 0), 1)], 0)], waves = [], basis = [],
               get_ovlp = (\<lambda>v w. 0), tol = - 1, lossMode = 0::int\<rparr>"
  have z: "norm_State ?S = 0"
    by (simp add: norm_State_def)
  show ?thesis
    using z normalise_zero_norm [OF z] by (simp add: clean_def)
qed

section \<open>Projection onto a common distinguishability mode\<close>

text \<open>
  Claim C10, as amended.  For a key whose distinguishability modes differ from the
  sentinel \<open>-1\<close>: when two occupied entries at modes of \<open>m\<close> carry different
  distinguishability modes, \<open>sameDModeDel\<close> returns false and the key is unchanged.
  Otherwise the key is replaced by its occupied entries outside \<open>m\<close>, whether the call
  succeeds or not, and the call succeeds exactly when the number of occupied entries at
  modes of \<open>m\<close> equals the length of \<open>m\<close>.
\<close>

theorem sameDModeDel_result:
  assumes "fm_ok K" and "\<forall>e \<in> set K. snd (fst e) \<noteq> - 1"
  shows "sameDModeDel K m =
     (if \<exists>e1 \<in> set K. \<exists>e2 \<in> set K. occupied_in m e1 \<and> occupied_in m e2
            \<and> snd (fst e1) \<noteq> snd (fst e2)
      then (False, K)
      else (length (filter (occupied_in m) K) = length m, filter (occupied_out m) K))"
proof (cases "sameDModeDel_loop m K (- 1) 0 []")
  case None
  have v: "sameDModeDel K m = (False, K)"
    by (simp add: sameDModeDel_def None)
  have ex: "\<exists>e1 \<in> set K. \<exists>e2 \<in> set K. occupied_in m e1 \<and> occupied_in m e2
            \<and> snd (fst e1) \<noteq> snd (fst e2)"
    using None by (rule iffD1 [OF sameDModeDel_loop_None [OF assms(2), of m 0 "[]"]])
  show ?thesis
    unfolding v using ex by (rule if_P [symmetric])
next
  case (Some r)
  obtain f' p' where r: "r = (f', p')" by (cases r)
  have s: "sorted_wrt (<) (map fst ([] @ K))" using assms(1) by (simp add: fm_ok_def)
  have l: "sameDModeDel_loop m K (- 1) 0 [] = Some (f', p')"
    using Some by (simp add: r)
  have fp: "f' = 0 + length (filter (occupied_in m) K) \<and> p' = [] @ filter (occupied_out m) K"
    using l s by (rule sameDModeDel_loop_Some)
  have v: "sameDModeDel K m
      = (length (filter (occupied_in m) K) = length m, filter (occupied_out m) K)"
  proof -
    have "sameDModeDel K m = (f' = length m, p')"
      unfolding sameDModeDel_def l by simp
    also have "f' = length (filter (occupied_in m) K)" using fp by simp
    also have "p' = filter (occupied_out m) K" using fp by simp
    finally show ?thesis .
  qed
  have nex: "\<not> (\<exists>e1 \<in> set K. \<exists>e2 \<in> set K. occupied_in m e1 \<and> occupied_in m e2
            \<and> snd (fst e1) \<noteq> snd (fst e2))"
  proof
    assume "\<exists>e1 \<in> set K. \<exists>e2 \<in> set K. occupied_in m e1 \<and> occupied_in m e2
            \<and> snd (fst e1) \<noteq> snd (fst e2)"
    then have "sameDModeDel_loop m K (- 1) 0 [] = None"
      by (rule iffD2 [OF sameDModeDel_loop_None [OF assms(2), of m 0 "[]"]])
    then show False by (simp add: l)
  qed
  show ?thesis
    unfolding v using nex by (rule if_not_P [symmetric])
qed

text \<open>The theorem at a key that fails on the count.\<close>

theorem sameDModeDel_result_witness:
  "fm_ok [((0 :: int, 0 :: int), 1), ((5, 0), 1 :: int)]
   \<and> list_all (\<lambda>e. snd (fst e) \<noteq> - 1) [((0 :: int, 0 :: int), 1), ((5, 0), 1 :: int)]
   \<and> sameDModeDel [((0, 0), 1), ((5, 0), 1)] [0, 6] = (False, [((5, 0), 1)])"
proof -
  have ok: "fm_ok [((0 :: int, 0 :: int), 1), ((5, 0), 1 :: int)]"
    by (simp add: fm_ok_def)
  have l: "\<forall>e \<in> set [((0 :: int, 0 :: int), 1), ((5, 0), 1 :: int)]. snd (fst e) \<noteq> - 1"
    by simp
  have "sameDModeDel [((0, 0), 1), ((5, 0), 1)] [0, 6] = (False, [((5, 0), 1)])"
    using sameDModeDel_result [OF ok l, of "[0, 6]"]
    by (simp add: occupied_in_def occupied_out_def)
  with ok show ?thesis by simp
qed

text \<open>
  Claim C10 as stated fails: with one of the two modes of \<open>m\<close> unoccupied the call
  returns false and has removed the entry at the occupied one.
\<close>

theorem sameDModeDel_mutates_on_failure:
  "fst (sameDModeDel [((0, 0), 1), ((5, 0), 1)] [0, 6]) = False
   \<and> snd (sameDModeDel [((0, 0), 1), ((5, 0), 1)] [0, 6]) = [((5, 0), 1)]
   \<and> snd (sameDModeDel [((0, 0), 1), ((5, 0), 1)] [0, 6]) \<noteq> [((0, 0), 1), ((5, 0), 1)]"
  by (simp add: sameDModeDel_def)

section \<open>Loss on modes that hold no photon\<close>

lemma find_pos_le: "find_pos ms x \<le> length ms"
  by (induction ms) auto

lemma find_pos_length: "find_pos ms x = length ms \<longleftrightarrow> x \<notin> set ms"
proof (induction ms)
  case Nil
  then show ?case by simp
next
  case (Cons y ys)
  then show ?case by auto
qed

lemma fold_unchanged: "(\<And>x. x \<in> set xs \<Longrightarrow> f x acc = acc) \<Longrightarrow> fold f xs acc = acc"
  by (induction xs) auto

lemma loss_step_skip:
  assumes "no_occupation k modes" and "i < length k"
  shows "loss_step modes lM k i (R, tot, mx) = (R, tot, mx)"
proof -
  obtain m d n where e: "k ! i = ((m, d), n)" by (cases "k ! i") auto
  have "k ! i \<in> set k" using assms(2) by simp
  then have "\<not> (m \<in> set modes \<and> n > 0)"
    using assms(1) by (auto simp: no_occupation_def list_all_iff e)
  then have "\<not> (int (find_pos modes m) \<noteq> int (length modes) \<and> n > 0)"
    by (simp add: find_pos_length)
  then show ?thesis
    by (simp add: loss_step_def e Let_def)
qed

lemma Key_loss_identity:
  assumes "no_occupation k modes"
  shows "Key_loss k modes lM mx = ([(k, 1)], mx)"
proof -
  have "fold (loss_step modes lM k) [0..<length k] ([], 0, mx) = ([], 0, mx)"
    by (rule fold_unchanged) (simp add: loss_step_skip [OF assms])
  then show ?thesis by (simp add: Key_loss_def)
qed

lemma emplace_add_append:
  "\<forall>k' \<in> fst ` set xs. k' < k \<Longrightarrow> emplace_add k v xs = xs @ [(k, v)]"
  by (induction xs) auto

lemma loss_fold_identity:
  "sorted_wrt (<) (map fst (acc @ xs)) \<Longrightarrow>
   list_all (\<lambda>t. no_occupation (fst t) modes) xs \<Longrightarrow>
   fold (loss_term modes lM) xs (acc, mx) = (acc @ xs, mx)"
proof (induction xs arbitrary: acc)
  case Nil
  then show ?case by simp
next
  case (Cons x xs)
  obtain K v where x: "x = (K, v)" by (cases x)
  from Cons.prems(1) have lt: "\<forall>k' \<in> fst ` set acc. k' < K"
    by (auto simp: x sorted_wrt_append)
  have no: "no_occupation K modes" using Cons.prems(2) by (simp add: x)
  have step: "loss_term modes lM (K, v) (acc, mx) = (acc @ [(K, v)], mx)"
    using lt by (simp add: loss_term_def Key_loss_identity [OF no] State_add_def emplace_add_append)
  have s: "sorted_wrt (<) (map fst ((acc @ [(K, v)]) @ xs))"
    using Cons.prems(1) by (simp add: x)
  have r: "list_all (\<lambda>t. no_occupation (fst t) modes) xs" using Cons.prems(2) by simp
  show ?case
    using Cons.IH [OF s r] step by (simp add: x)
qed

lemma clean_terms:
  "fm_ok (terms S) \<Longrightarrow> terms (clean S) = filter (\<lambda>(K, v). \<bar>v\<bar> > tol S) (terms S)"
  using fold_emplace_filter [of "[]" "terms S" "\<lambda>K v. \<bar>v\<bar> > tol S"]
  by (simp add: clean_def fm_ok_def)

lemma clean_id:
  assumes "fm_ok (terms S)" and "list_all (\<lambda>t. \<bar>snd t\<bar> > tol S) (terms S)"
  shows "clean S = S"
proof -
  have "filter (\<lambda>(K, v). \<bar>v\<bar> > tol S) (terms S) = terms S"
    using assms(2) by (auto simp: list_all_iff intro!: filter_True)
  then have "terms (clean S) = terms S" using clean_terms [OF assms(1)] by simp
  moreover have "clean S = S\<lparr>terms := terms (clean S)\<rparr>" by (simp add: clean_def)
  ultimately show ?thesis by simp
qed

text \<open>
  Claim C6, as amended.  When no term of a state has a photon at the modes given to
  \<open>loss\<close>: for every key of the state \<open>Key::loss\<close> returns the key itself with
  amplitude exactly 1 and leaves \<open>maxLM\<close> as it was (the branch taken returns before the
  division), and \<open>State::loss\<close> returns the state pruned as \<open>clean\<close> prunes it, with a
  negative loss mode raised to 0.  The state is returned unchanged when, in addition,
  every amplitude exceeds the tolerance and the loss mode is not negative.
\<close>

theorem loss_zero_occupation:
  assumes "fm_ok (terms S)"
    and "list_all (\<lambda>t. no_occupation (fst t) modes) (terms S)"
  shows "list_all (\<lambda>t. \<forall>lM mx. Key_loss (fst t) modes lM mx = ([(fst t, 1)], mx)) (terms S)
       \<and> loss S modes = clean (S\<lparr>lossMode := max 0 (lossMode S)\<rparr>)
       \<and> (list_all (\<lambda>t. \<bar>snd t\<bar> > tol S) (terms S) \<and> 0 \<le> lossMode S \<longrightarrow> loss S modes = S)"
proof -
  have k: "list_all (\<lambda>t. \<forall>lM mx. Key_loss (fst t) modes lM mx = ([(fst t, 1)], mx)) (terms S)"
    using assms(2) by (simp add: list_all_iff Key_loss_identity)
  have s: "sorted_wrt (<) (map fst ([] @ terms S))" using assms(1) by (simp add: fm_ok_def)
  have f: "fold (loss_term modes (lossMode S)) (terms S) ([], 0) = (terms S, 0)"
    using loss_fold_identity [OF s assms(2), of "lossMode S" 0] by simp
  have l: "loss S modes = clean (S\<lparr>lossMode := max 0 (lossMode S)\<rparr>)"
    by (simp add: loss_def f max_def)
  have i: "loss S modes = S"
    if a: "list_all (\<lambda>t. \<bar>snd t\<bar> > tol S) (terms S)" and z: "0 \<le> lossMode S"
  proof -
    have "S\<lparr>lossMode := max 0 (lossMode S)\<rparr> = S" using z by (simp add: max_def)
    then show ?thesis using l clean_id [OF assms(1) a] by simp
  qed
  show ?thesis using k l i by blast
qed

text \<open>The theorem at a state with two terms, one of amplitude zero.\<close>

theorem loss_zero_occupation_witness:
  "fm_ok (terms \<lparr>terms = [([((0, 0), 1)], 1 / 2), ([((1, 0), 1)], 0)], waves = [], basis = [],
                 get_ovlp = (\<lambda>v w. 0), tol = 1 / 10 ^ 9, lossMode = 12\<rparr>)
   \<and> list_all (\<lambda>t. no_occupation (fst t) [5, 6])
        (terms \<lparr>terms = [([((0, 0), 1)], 1 / 2), ([((1, 0), 1)], 0)], waves = [], basis = [],
                 get_ovlp = (\<lambda>v w. 0), tol = 1 / 10 ^ 9, lossMode = 12\<rparr>)
   \<and> Key_loss [((0, 0), 1)] [5, 6] 12 0 = ([([((0, 0), 1)], 1)], 0)
   \<and> terms (loss \<lparr>terms = [([((0, 0), 1)], 1 / 2), ([((1, 0), 1)], 0)], waves = [], basis = [],
                 get_ovlp = (\<lambda>v w. 0), tol = 1 / 10 ^ 9, lossMode = 12\<rparr> [5, 6])
       = [([((0, 0), 1)], 1 / 2)]"
proof -
  let ?S = "\<lparr>terms = [([((0, 0), 1)], 1 / 2), ([((1, 0), 1)], 0)], waves = [], basis = [],
                 get_ovlp = (\<lambda>v w. 0), tol = 1 / 10 ^ 9, lossMode = 12 :: int\<rparr>"
  have ok: "fm_ok (terms ?S)"
    by (simp add: fm_ok_def)
  have no: "list_all (\<lambda>t. no_occupation (fst t) [5, 6]) (terms ?S)"
    by (simp add: no_occupation_def)
  show ?thesis
    using ok no loss_zero_occupation [OF ok no]
    by (simp add: clean_def)
qed

text \<open>
  Claim C6 as stated fails for a state with an amplitude that does not exceed the
  tolerance: \<open>loss\<close> ends with \<open>clean\<close>, which removes the term.
\<close>

theorem loss_prunes_small_amplitudes:
  "list_all (\<lambda>t. no_occupation (fst t) [5, 6])
        (terms \<lparr>terms = [([((0, 0), 1)], 1 / 2), ([((1, 0), 1)], 0)], waves = [], basis = [],
                 get_ovlp = (\<lambda>v w. 0), tol = 1 / 10 ^ 9, lossMode = 12\<rparr>)
   \<and> terms (loss \<lparr>terms = [([((0, 0), 1)], 1 / 2), ([((1, 0), 1)], 0)], waves = [], basis = [],
                 get_ovlp = (\<lambda>v w. 0), tol = 1 / 10 ^ 9, lossMode = 12\<rparr> [5, 6])
       = [([((0, 0), 1)], 1 / 2)]
   \<and> loss \<lparr>terms = [([((0, 0), 1)], 1 / 2), ([((1, 0), 1)], 0)], waves = [], basis = [],
                 get_ovlp = (\<lambda>v w. 0), tol = 1 / 10 ^ 9, lossMode = 12\<rparr> [5, 6]
       \<noteq> \<lparr>terms = [([((0, 0), 1)], 1 / 2), ([((1, 0), 1)], 0)], waves = [], basis = [],
                 get_ovlp = (\<lambda>v w. 0), tol = 1 / 10 ^ 9, lossMode = 12\<rparr>"
  by (simp add: no_occupation_def loss_def loss_term_def Key_loss_def loss_step_def
      State_add_def clean_def)

section \<open>Adding a photon with an orthogonal wave function\<close>

lemma fold_plus_sum:
  "fold (\<lambda>i res. res + f i) xs (a :: real) = a + (\<Sum>i\<leftarrow>xs. f i)"
  by (induction xs arbitrary: a) (auto simp: algebra_simps)

lemma ovlpH_sum: "ovlpH b wfn g ws = (\<Sum>i<length b. b ! i * g (ws ! i) wfn)"
  by (simp add: ovlpH_def fold_plus_sum interv_sum_list_conv_sum_set_nat atLeast0LessThan)

lemma ovlp_sum: "ovlp b c g ws = (\<Sum>i<length c. c ! i * ovlpH b (ws ! i) g ws)"
  by (simp add: ovlp_def fold_plus_sum interv_sum_list_conv_sum_set_nat atLeast0LessThan)

text \<open>A coefficient vector over wave functions that all have overlap zero with \<open>wfn\<close>.\<close>

lemma ovlpH_orthogonal:
  assumes "\<forall>i < length b. g (ws ! i) wfn = 0"
  shows "ovlpH b wfn g ws = 0"
proof -
  have "b ! i * g (ws ! i) wfn = 0" if "i < length b" for i
    using that assms by simp
  then have "(\<Sum>i<length b. b ! i * g (ws ! i) wfn) = 0"
    by (intro sum.neutral) simp
  then show ?thesis by (simp only: ovlpH_sum)
qed

text \<open>The vector \<open>(0, ..., 0, c)\<close>.\<close>

lemma sum_unit:
  "(\<Sum>i<Suc n. (replicate n 0 @ [c]) ! i * h i) = c * (h n :: real)"
proof -
  have "(replicate n 0 @ [c]) ! i * h i = 0" if "i < n" for i
    using that by (simp add: nth_append)
  then have "(\<Sum>i<n. (replicate n 0 @ [c]) ! i * h i) = 0"
    by (intro sum.neutral) simp
  then show ?thesis by (simp add: nth_append)
qed

lemma ovlpH_unit:
  "ovlpH (replicate n 0 @ [c]) wfn g ws = c * g (ws ! n) wfn"
  using sum_unit [of n c "\<lambda>i. g (ws ! i) wfn"] by (simp add: ovlpH_sum)

lemma ovlp_unit:
  "ovlp b (replicate n 0 @ [c]) g ws = c * ovlpH b (ws ! n) g ws"
  using sum_unit [of n c "\<lambda>i. ovlpH b (ws ! i) g ws"] by (simp add: ovlp_sum)

lemma fold_id: "fold (\<lambda>j acc. acc) js a = a"
  by (induction js) auto

lemma sum_list_replicate_zero: "sum_list (replicate n (0 :: real)) = 0"
  by (induction n) auto

lemma gs_step_orthogonal:
  assumes "length (basis S ! i) \<le> length (waves S)"
    and "\<forall>w \<in> set (waves S). get_ovlp S w wfn = 0"
  shows "gs_step S wfn i (bNew, decomp) = (bNew, decomp @ [0])"
proof -
  have "\<forall>k < length (basis S ! i). get_ovlp S (waves S ! k) wfn = 0"
    using assms by simp
  then have "ovlpH (basis S ! i) wfn (get_ovlp S) (waves S) = 0"
    by (rule ovlpH_orthogonal)
  then show ?thesis by (simp add: gs_step_def fold_id)
qed

lemma gs_fold_orthogonal:
  assumes "\<forall>i < length (basis S). length (basis S ! i) \<le> length (waves S)"
    and "\<forall>w \<in> set (waves S). get_ovlp S w wfn = 0"
  shows "m \<le> length (basis S) \<Longrightarrow>
     fold (gs_step S wfn) [0..<m] (bNew, decomp) = (bNew, decomp @ replicate m 0)"
proof (induction m)
  case 0
  then show ?case by simp
next
  case (Suc m)
  have "length (basis S ! m) \<le> length (waves S)" using Suc.prems assms(1) by simp
  from gs_step_orthogonal [OF this assms(2)] Suc show ?case
    by (simp add: replicate_append_same)
qed

lemma addBasisElem_orthogonal:
  assumes wb: "wf_basis S"
    and o1: "\<forall>w \<in> set (waves S). get_ovlp S w wfn = 0"
    and pos: "0 < get_ovlp S wfn wfn"
  shows "addBasisElem S wfn =
     Some (S\<lparr>waves := waves S @ [wfn],
              basis := basis S @ [replicate (length (basis S)) 0 @ [1 / sqrt (get_ovlp S wfn wfn)]]\<rparr>,
           replicate (length (basis S)) 0 @ [1])"
proof -
  let ?n = "length (basis S)"
  let ?g = "get_ovlp S"
  let ?c = "?g wfn wfn"
  have len: "\<forall>i < ?n. length (basis S ! i) \<le> length (waves S)"
    using wb by (simp add: wf_basis_def list_all_length)
  have n: "?n = length (waves S)" using wb by (simp add: wf_basis_def)
  have f: "fold (gs_step S wfn) [0..<?n] (replicate ?n 0, []) = (replicate ?n 0, replicate ?n 0)"
    using gs_fold_orthogonal [OF len o1, of ?n "replicate ?n 0" "[]"] by simp
  have last: "(waves S @ [wfn]) ! ?n = wfn" by (simp add: n)
  have normC: "ovlp (replicate ?n 0 @ [1]) (replicate ?n 0 @ [1]) ?g (waves S @ [wfn]) = ?c"
    by (simp add: ovlp_unit ovlpH_unit last)
  have sq: "sqrt \<bar>?c\<bar> \<noteq> 0" using pos by simp
  have bNew: "map (\<lambda>x. x / sqrt \<bar>?c\<bar>) (replicate ?n 0 @ [1]) = replicate ?n 0 @ [1 / sqrt ?c]"
    using pos by simp
  have d: "ovlpH (replicate ?n 0 @ [1 / sqrt ?c]) wfn ?g (waves S @ [wfn]) = sqrt ?c"
    using pos by (simp add: ovlpH_unit last real_div_sqrt)
  have norm2: "fold (\<lambda>a r. r + \<bar>a\<bar> ^ 2) (replicate ?n 0 @ [sqrt ?c]) 0 = ?c"
    unfolding fold_plus_sum using pos by (simp add: sum_list_replicate_zero)
  have dn: "map (\<lambda>a. a / sqrt ?c) (replicate ?n 0 @ [sqrt ?c]) = replicate ?n 0 @ [1]"
    using pos by simp
  have nz: "?c \<noteq> 0" using pos by simp
  show ?thesis
    unfolding addBasisElem_def f
    by (simp only: prod.case Let_def normC sq bNew d norm2 dn nz if_False if_True
        not_False_eq_True)
qed


lemma find_wave_None:
  "\<forall>w \<in> set ws. \<bar>g wfn w\<bar> \<noteq> 1 \<Longrightarrow> find_wave g wfn ws i = None"
  by (induction ws arbitrary: i) auto

text \<open>
  Claim C4.  Let a state have terms, and let the new wave function have overlap zero with
  every stored one (in both orders of the arguments, as \<open>addPhoton\<close> and \<open>ovlpH\<close>
  call the overlap function) and a positive overlap with itself.  Then \<open>addPhoton\<close>
  appends exactly one vector \<open>v\<close> to the basis and the wave function to \<open>waves\<close>, and
  the inner products computed by \<open>ovlp\<close> over the stored wave functions are
  \<open>\<langle>v, v\<rangle> = 1\<close> and \<open>\<langle>v, b\<rangle> = \<langle>b, v\<rangle> = 0\<close> for every basis vector
  \<open>b\<close> stored before.
\<close>

theorem addPhoton_orthogonal:
  assumes ne: "terms S \<noteq> []"
    and wb: "wf_basis S"
    and o: "\<forall>w \<in> set (waves S). get_ovlp S w wfn = 0 \<and> get_ovlp S wfn w = 0"
    and pos: "0 < get_ovlp S wfn wfn"
  shows "\<exists>S' v. addPhoton S wfn mode num = Some S'
           \<and> basis S' = basis S @ [v]
           \<and> waves S' = waves S @ [wfn]
           \<and> ovlp v v (get_ovlp S) (waves S') = 1
           \<and> (\<forall>i < length (basis S).
                 ovlp v (basis S ! i) (get_ovlp S) (waves S') = 0
               \<and> ovlp (basis S ! i) v (get_ovlp S) (waves S') = 0)"
proof -
  let ?g = "get_ovlp S"
  let ?c = "?g wfn wfn"
  let ?n = "length (basis S)"
  let ?v = "replicate ?n 0 @ [1 / sqrt ?c]"
  let ?ws = "waves S @ [wfn]"
  define T where "T = (if mode \<ge> lossMode S then S\<lparr>lossMode := mode + 1\<rparr> else S)"
  have T: "terms T = terms S" "waves T = waves S" "basis T = basis S" "get_ovlp T = ?g"
    by (simp_all add: T_def)
  have wbT: "wf_basis T" using wb by (simp add: wf_basis_def T)
  have o1: "\<forall>w \<in> set (waves T). get_ovlp T w wfn = 0" using o by (simp add: T)
  have posT: "0 < get_ovlp T wfn wfn" using pos by (simp add: T)
  have fw: "find_wave ?g wfn (waves S) 0 = None"
    by (rule find_wave_None) (use o in simp)
  have ab: "addBasisElem T wfn =
     Some (T\<lparr>waves := ?ws, basis := basis S @ [?v]\<rparr>, replicate ?n 0 @ [1])"
    using addBasisElem_orthogonal [OF wbT o1 posT] by (simp add: T)
  have "\<exists>tm. addPhoton S wfn mode num = Some (T\<lparr>waves := ?ws, basis := basis S @ [?v], terms := tm\<rparr>)"
    unfolding addPhoton_def using ne
    by (simp add: Let_def T_def [symmetric] T fw ab) (rule exI, rule refl)
  then obtain tm where
    ap: "addPhoton S wfn mode num = Some (T\<lparr>waves := ?ws, basis := basis S @ [?v], terms := tm\<rparr>)" ..
  have n: "?n = length (waves S)" using wb by (simp add: wf_basis_def)
  have last: "?ws ! ?n = wfn" by (simp add: n)
  have vv: "ovlp ?v ?v ?g ?ws = 1"
    using pos by (simp add: ovlp_unit ovlpH_unit last)
  have orth: "ovlp ?v (basis S ! i) ?g ?ws = 0 \<and> ovlp (basis S ! i) ?v ?g ?ws = 0"
    if i: "i < ?n" for i
  proof -
    have len: "length (basis S ! i) \<le> length (waves S)"
      using wb i by (simp add: wf_basis_def list_all_length)
    have w: "?ws ! k \<in> set (waves S)" if "k < length (basis S ! i)" for k
      using that len by (simp add: nth_append)
    have "basis S ! i ! k * ovlpH ?v (?ws ! k) ?g ?ws = 0" if "k < length (basis S ! i)" for k
      using w [OF that] o by (simp add: ovlpH_unit last)
    then have "(\<Sum>k<length (basis S ! i). basis S ! i ! k * ovlpH ?v (?ws ! k) ?g ?ws) = 0"
      by (intro sum.neutral) simp
    then have a: "ovlp ?v (basis S ! i) ?g ?ws = 0" by (simp only: ovlp_sum)
    have "\<forall>k < length (basis S ! i). ?g (?ws ! k) wfn = 0"
      using w o by simp
    then have "ovlpH (basis S ! i) wfn ?g ?ws = 0" by (rule ovlpH_orthogonal)
    then have b: "ovlp (basis S ! i) ?v ?g ?ws = 0" by (simp add: ovlp_unit last)
    from a b show ?thesis ..
  qed
  show ?thesis
    using ap vv orth by (intro exI [of _ "T\<lparr>waves := ?ws, basis := basis S @ [?v], terms := tm\<rparr>"] exI [of _ ?v]) simp
qed

text \<open>The theorem at the state that holds one photon, for a second wave function.\<close>

theorem addPhoton_orthogonal_witness:
  "wf_basis \<lparr>terms = [([((0, 0), 1)], 1)], waves = [[0, 0]], basis = [[1]],
             get_ovlp = trivOvlF, tol = 1 / 10 ^ 9, lossMode = 12\<rparr>
   \<and> trivOvlF [0, 0] [1, 0] = 0 \<and> trivOvlF [1, 0] [0, 0] = 0 \<and> 0 < trivOvlF [1, 0] [1, 0]
   \<and> (\<exists>S'. addPhoton \<lparr>terms = [([((0, 0), 1)], 1)], waves = [[0, 0]], basis = [[1]],
                 get_ovlp = trivOvlF, tol = 1 / 10 ^ 9, lossMode = 12\<rparr> [1, 0] 2 1 = Some S'
          \<and> length (basis S') = 2 \<and> waves S' = [[0, 0], [1, 0]]
          \<and> ovlp (basis S' ! 1) (basis S' ! 1) trivOvlF (waves S') = 1
          \<and> ovlp (basis S' ! 1) (basis S' ! 0) trivOvlF (waves S') = 0)"
proof -
  let ?S = "\<lparr>terms = [([((0, 0), 1)], 1)], waves = [[0, 0]], basis = [[1]],
             get_ovlp = trivOvlF, tol = 1 / 10 ^ 9, lossMode = 12 :: int\<rparr>"
  have ne: "terms ?S \<noteq> []" by simp
  have wb: "wf_basis ?S" by (simp add: wf_basis_def)
  have o: "\<forall>w \<in> set (waves ?S). get_ovlp ?S w [1, 0] = 0 \<and> get_ovlp ?S [1, 0] w = 0"
    by (simp add: trivOvlF_def)
  have pos: "0 < get_ovlp ?S [1, 0] [1, 0]" by (simp add: trivOvlF_def)
  from addPhoton_orthogonal [OF ne wb o pos, of 2 1]
  obtain S' v where h: "addPhoton ?S [1, 0] 2 1 = Some S'" "basis S' = basis ?S @ [v]"
    "waves S' = waves ?S @ [[1, 0]]" "ovlp v v (get_ovlp ?S) (waves S') = 1"
    "\<forall>i < length (basis ?S). ovlp v (basis ?S ! i) (get_ovlp ?S) (waves S') = 0
               \<and> ovlp (basis ?S ! i) v (get_ovlp ?S) (waves S') = 0"
    by blast
  have "length (basis S') = 2" "waves S' = [[0, 0], [1, 0]]"
    "ovlp (basis S' ! 1) (basis S' ! 1) trivOvlF (waves S') = 1"
    "ovlp (basis S' ! 1) (basis S' ! 0) trivOvlF (waves S') = 0"
    using h by simp_all
  with h(1) wb show ?thesis by (simp add: trivOvlF_def)
qed

section \<open>Adding a photon with a stored wave function\<close>

lemma emplace_keys: "fst ` set (emplace k v xs) = insert k (fst ` set xs)"
proof (induction xs)
  case Nil
  then show ?case by simp
next
  case (Cons x xs)
  obtain k' v' where x: "x = (k', v')" by (cases x)
  consider "k < k'" | "k = k'" | "\<not> k < k'" "k \<noteq> k'" by blast
  then show ?case
  proof cases
    case 1
    then show ?thesis by (simp add: x)
  next
    case 2
    then show ?thesis by (simp add: x)
  next
    case 3
    then show ?thesis using Cons.IH by (simp add: x insert_commute)
  qed
qed

lemma emplace_fm_ok: "fm_ok xs \<Longrightarrow> fm_ok (emplace k v xs)"
  unfolding fm_ok_def
proof (induction xs)
  case Nil
  then show ?case by simp
next
  case (Cons x xs)
  obtain k' v' where x: "x = (k', v')" by (cases x)
  show ?case
  proof (cases "k < k'")
    case True
    then show ?thesis using Cons.prems by (auto simp: x)
  next
    case False
    show ?thesis
    proof (cases "k = k'")
      case True
      then show ?thesis using Cons.prems by (simp add: x)
    next
      case neq: False
      have "\<forall>y \<in> fst ` set (emplace k v xs). k' < y"
        using Cons.prems False neq by (auto simp: x emplace_keys)
      then show ?thesis
        using Cons.prems Cons.IH False neq by (auto simp: x)
    qed
  qed
qed

lemma emplace_set_new:
  "k \<notin> fst ` set xs \<Longrightarrow> set (emplace k v xs) = insert (k, v) (set xs)"
proof (induction xs)
  case Nil
  then show ?case by simp
next
  case (Cons x xs)
  obtain k' v' where x: "x = (k', v')" by (cases x)
  have neq: "k \<noteq> k'" and rest: "k \<notin> fst ` set xs" using Cons.prems by (auto simp: x)
  show ?case
  proof (cases "k < k'")
    case True
    then show ?thesis by (simp add: x)
  next
    case False
    then show ?thesis using neq Cons.IH [OF rest] by (simp add: x insert_commute)
  qed
qed

lemma emplace_length_new:
  "k \<notin> fst ` set xs \<Longrightarrow> length (emplace k v xs) = Suc (length xs)"
proof (induction xs)
  case Nil
  then show ?case by simp
next
  case (Cons x xs)
  obtain k' v' where x: "x = (k', v')" by (cases x)
  have neq: "k \<noteq> k'" and rest: "k \<notin> fst ` set xs" using Cons.prems by (auto simp: x)
  show ?case using neq Cons.IH [OF rest] by (simp add: x)
qed

lemma fold_emplace_inj:
  assumes "inj_on h (fst ` set xs)" and "distinct (map fst xs)"
    and "h ` fst ` set xs \<inter> fst ` set acc = {}" and "fm_ok acc"
  shows "set (fold (\<lambda>(K, v) SNew. emplace (h K) v SNew) xs acc)
           = set acc \<union> (\<lambda>(K, v). (h K, v)) ` set xs
         \<and> length (fold (\<lambda>(K, v) SNew. emplace (h K) v SNew) xs acc) = length acc + length xs
         \<and> fm_ok (fold (\<lambda>(K, v) SNew. emplace (h K) v SNew) xs acc)"
  using assms
proof (induction xs arbitrary: acc)
  case Nil
  then show ?case by simp
next
  case (Cons x xs)
  obtain K v where x: "x = (K, v)" by (cases x)
  have new: "h K \<notin> fst ` set acc" using Cons.prems(3) by (auto simp: x)
  have inj: "inj_on h (fst ` set xs)" using Cons.prems(1) by (auto simp: inj_on_def)
  have dis: "distinct (map fst xs)" using Cons.prems(2) by simp
  have "h K \<notin> h ` fst ` set xs"
  proof
    assume "h K \<in> h ` fst ` set xs"
    then obtain K' where K': "K' \<in> fst ` set xs" "h K = h K'" by blast
    then have "K = K'" using Cons.prems(1) by (auto simp: x inj_on_def)
    then show False using K'(1) Cons.prems(2) by (simp add: x)
  qed
  then have disj: "h ` fst ` set xs \<inter> fst ` set (emplace (h K) v acc) = {}"
    using Cons.prems(3) by (auto simp: emplace_keys x)
  have ok: "fm_ok (emplace (h K) v acc)" using Cons.prems(4) by (rule emplace_fm_ok)
  from Cons.IH [OF inj dis disj ok] show ?case
    by (auto simp: x emplace_set_new [OF new] emplace_length_new [OF new])
qed

lemma filter_other: "k \<notin> fst ` set xs \<Longrightarrow> filter (\<lambda>e. fst e \<noteq> k) xs = xs"
  by (induction xs) auto

lemma map_other: "k \<notin> fst ` set xs \<Longrightarrow> map (\<lambda>e. if fst e = k then (k, f e) else e) xs = xs"
  by (induction xs) auto

lemma fm_ok_Cons: "fm_ok ((k, v) # xs) \<longleftrightarrow> (\<forall>y \<in> fst ` set xs. k < y) \<and> fm_ok xs"
  by (auto simp: fm_ok_def)

lemma map_of_less: "\<forall>y \<in> fst ` set xs. k < y \<Longrightarrow> map_of xs (k :: 'a :: linorder) = None"
  by (induction xs) auto

lemma un_incr_emplace_add:
  "fm_ok K \<Longrightarrow> (k, 0) \<notin> set K \<Longrightarrow> un_incr k c (emplace_add k c K) = K"
proof (induction K)
  case Nil
  then show ?case by (simp add: un_incr_def)
next
  case (Cons e K)
  obtain k' n' where e: "e = (k', n')" by (cases e)
  have gt: "\<forall>y \<in> fst ` set K. k' < y" using Cons.prems(1) by (auto simp: fm_ok_def e)
  show ?case
  proof (cases "k < k'")
    case True
    then have "k \<notin> fst ` set (e # K)" using gt by (auto simp: e)
    then show ?thesis using True by (simp add: e un_incr_def filter_other)
  next
    case False
    show ?thesis
    proof (cases "k = k'")
      case True
      then have "k \<notin> fst ` set K" using gt by auto
      moreover have "n' \<noteq> 0" using Cons.prems(2) True by (auto simp: e)
      ultimately show ?thesis using True by (simp add: e un_incr_def map_other)
    next
      case neq: False
      have ok: "fm_ok K" using Cons.prems(1) by (simp add: fm_ok_def)
      have nz: "(k, 0) \<notin> set K" using Cons.prems(2) by simp
      have IH: "un_incr k c (emplace_add k c K) = K" using Cons.IH [OF ok nz] .
      have "un_incr k c (e # emplace_add k c K) = e # un_incr k c (emplace_add k c K)"
        using neq by (simp add: un_incr_def e)
      then show ?thesis using False neq IH by (simp add: e)
    qed
  qed
qed

lemma incr_inj_on:
  assumes "\<forall>K \<in> A. fm_ok K \<and> ((a, b), 0) \<notin> set K"
  shows "inj_on (incr a b c) A"
proof (rule inj_on_inverseI)
  fix K assume "K \<in> A"
  then show "un_incr (a, b) c (incr a b c K) = K"
    using assms by (simp add: incr_def un_incr_emplace_add)
qed

lemma find_wave_Some:
  "\<exists>w \<in> set ws. \<bar>g wfn w\<bar> = 1 \<Longrightarrow>
   \<exists>k. find_wave g wfn ws i = Some (i + k) \<and> k < length ws \<and> \<bar>g wfn (ws ! k)\<bar> = 1
       \<and> (\<forall>j < k. \<bar>g wfn (ws ! j)\<bar> \<noteq> 1)"
proof (induction ws arbitrary: i)
  case Nil
  then show ?case by simp
next
  case (Cons w ws)
  show ?case
  proof (cases "\<bar>g wfn w\<bar> = 1")
    case True
    then show ?thesis by (intro exI [of _ 0]) simp
  next
    case False
    then have "\<exists>w \<in> set ws. \<bar>g wfn w\<bar> = 1" using Cons.prems by simp
    from Cons.IH [OF this, of "Suc i"] obtain k where
      k: "find_wave g wfn ws (Suc i) = Some (Suc i + k)" "k < length ws"
        "\<bar>g wfn (ws ! k)\<bar> = 1" "\<forall>j < k. \<bar>g wfn (ws ! j)\<bar> \<noteq> 1" by blast
    have "\<forall>j < Suc k. \<bar>g wfn ((w # ws) ! j)\<bar> \<noteq> 1"
      using False k(4) by (auto simp: less_Suc_eq_0_disj)
    then show ?thesis
      using False k by (intro exI [of _ "Suc k"]) simp
  qed
qed


lemma find_wave_first:
  assumes "idx < length ws" and "\<bar>g wfn (ws ! idx)\<bar> = 1"
    and "\<forall>j < idx. \<bar>g wfn (ws ! j)\<bar> \<noteq> 1"
  shows "find_wave g wfn ws 0 = Some idx"
proof -
  have "\<exists>w \<in> set ws. \<bar>g wfn w\<bar> = 1" using assms(1,2) by (auto intro: nth_mem)
  with find_wave_Some [of ws g wfn 0] obtain k where
    k: "find_wave g wfn ws 0 = Some k" "k < length ws" "\<bar>g wfn (ws ! k)\<bar> = 1"
      "\<forall>j < k. \<bar>g wfn (ws ! j)\<bar> \<noteq> 1"
    by auto
  have "\<not> k < idx" using assms(3) k(3) by auto
  moreover have "\<not> idx < k" using k(4) assms(2) by auto
  ultimately have "k = idx" by simp
  then show ?thesis using k(1) by simp
qed

text \<open>
  Claim C3, as amended.  Let a state have terms, its map and its keys sorted (the
  container's invariant), and let \<open>idx\<close> be the first position of a stored wave
  function whose overlap with the new one has absolute value exactly 1.  Let no key hold
  an entry of occupation zero at the pair (mode, \<open>idx\<close>).  Then \<open>addPhoton\<close> leaves
  \<open>basis\<close> and \<open>waves\<close> as they are, and its terms are those of the state with
  \<open>incr\<close> applied to every key at that pair, amplitudes unchanged and no term lost.
\<close>

theorem addPhoton_same_wave_function:
  assumes ne: "terms S \<noteq> []"
    and ok: "fm_ok (terms S)"
    and idx: "idx < length (waves S)" "\<bar>get_ovlp S wfn (waves S ! idx)\<bar> = 1"
      "\<forall>j < idx. \<bar>get_ovlp S wfn (waves S ! j)\<bar> \<noteq> 1"
    and keys: "list_all (\<lambda>t. fm_ok (fst t) \<and> ((mode, int idx), 0) \<notin> set (fst t)) (terms S)"
  shows "\<exists>S'. addPhoton S wfn mode num = Some S'
           \<and> basis S' = basis S \<and> waves S' = waves S
           \<and> fm_ok (terms S') \<and> length (terms S') = length (terms S)
           \<and> set (terms S') = (\<lambda>(K, v). (incr mode (int idx) num K, v)) ` set (terms S)"
proof -
  define T where "T = (if mode \<ge> lossMode S then S\<lparr>lossMode := mode + 1\<rparr> else S)"
  have T: "terms T = terms S" "waves T = waves S" "basis T = basis S" "get_ovlp T = get_ovlp S"
    by (simp_all add: T_def)
  have fw: "find_wave (get_ovlp S) wfn (waves S) 0 = Some idx"
    using idx by (rule find_wave_first)
  let ?h = "incr mode (int idx) num"
  let ?tm = "fold (\<lambda>(K, v) SNew. emplace (?h K) v SNew) (terms S) []"
  have ap: "addPhoton S wfn mode num = Some (T\<lparr>terms := ?tm\<rparr>)"
    unfolding addPhoton_def using ne
    by (simp add: Let_def T_def [symmetric] T fw)
  have "\<forall>K \<in> fst ` set (terms S). fm_ok K \<and> ((mode, int idx), 0) \<notin> set K"
    using keys by (fastforce simp: list_all_iff)
  then have inj: "inj_on ?h (fst ` set (terms S))" by (rule incr_inj_on)
  have dis: "distinct (map fst (terms S))"
    using ok by (simp add: fm_ok_def strict_sorted_iff)
  have f: "set ?tm = set [] \<union> (\<lambda>(K, v). (?h K, v)) ` set (terms S)
         \<and> length ?tm = length ([] :: SD) + length (terms S) \<and> fm_ok ?tm"
    by (rule fold_emplace_inj [OF inj dis]) (simp_all add: fm_ok_def)
  show ?thesis
    using ap f by (intro exI [of _ "T\<lparr>terms := ?tm\<rparr>"]) (simp add: T)
qed

text \<open>
  The theorem at a state with two terms and two wave functions, for the second wave
  function; one key holds an entry of occupation zero at another pair.
\<close>

theorem addPhoton_same_wave_function_witness:
  "(let S = \<lparr>terms = [([((0, 0), 0), ((12, 0), 1)], 1 / 2), ([((12, 0), 1)], 1 / 3)],
              waves = [[0, 7 / 10], [1, 7 / 10]], basis = [[1], [0, 1]],
              get_ovlp = trivOvlF, tol = 1 / 10 ^ 9, lossMode = 13\<rparr>
    in fm_ok (terms S)
     \<and> \<bar>trivOvlF [1, 7 / 10] (waves S ! 1)\<bar> = 1
     \<and> \<bar>trivOvlF [1, 7 / 10] (waves S ! 0)\<bar> \<noteq> 1
     \<and> list_all (\<lambda>t. fm_ok (fst t) \<and> ((12, 1), 0) \<notin> set (fst t)) (terms S)
     \<and> (\<exists>S'. addPhoton S [1, 7 / 10] 12 1 = Some S'
          \<and> basis S' = [[1], [0, 1]] \<and> waves S' = [[0, 7 / 10], [1, 7 / 10]]
          \<and> length (terms S') = 2
          \<and> set (terms S') = {([((0, 0), 0), ((12, 0), 1), ((12, 1), 1)], 1 / 2),
                                ([((12, 0), 1), ((12, 1), 1)], 1 / 3)}))"
proof -
  let ?S = "\<lparr>terms = [([((0, 0), 0), ((12, 0), 1)], 1 / 2), ([((12, 0), 1)], 1 / 3)],
              waves = [[0, 7 / 10], [1, 7 / 10]], basis = [[1], [0, 1]],
              get_ovlp = trivOvlF, tol = 1 / 10 ^ 9, lossMode = 13 :: int\<rparr>"
  have ne: "terms ?S \<noteq> []" by simp
  have ok: "fm_ok (terms ?S)" by (simp add: fm_ok_def)
  have idx: "(1 :: nat) < length (waves ?S)" "\<bar>get_ovlp ?S [1, 7 / 10] (waves ?S ! 1)\<bar> = 1"
    "\<forall>j < (1 :: nat). \<bar>get_ovlp ?S [1, 7 / 10] (waves ?S ! j)\<bar> \<noteq> 1"
    by (simp_all add: trivOvlF_def)
  have keys: "list_all (\<lambda>t. fm_ok (fst t) \<and> ((12, int 1), 0) \<notin> set (fst t)) (terms ?S)"
    by (simp add: fm_ok_def)
  from addPhoton_same_wave_function [OF ne ok idx keys, of 1]
  obtain S' where h: "addPhoton ?S [1, 7 / 10] 12 1 = Some S'"
    "basis S' = basis ?S" "waves S' = waves ?S" "length (terms S') = length (terms ?S)"
    "set (terms S') = (\<lambda>(K, v). (incr 12 (int 1) 1 K, v)) ` set (terms ?S)"
    by blast
  have "set (terms S') = {([((0, 0), 0), ((12, 0), 1), ((12, 1), 1)], 1 / 2),
                               ([((12, 0), 1), ((12, 1), 1)], 1 / 3)}"
    using h(5) by (simp add: incr_def)
  with h(1,2,3,4) ok show ?thesis unfolding Let_def by (simp add: trivOvlF_def fm_ok_def)
qed

text \<open>
  Claim C3 as stated fails for a state with an entry of occupation zero at the pair, as
  \<open>loss\<close> leaves it: \<open>incr\<close> maps the keys \<open>{(0,0): 0, (12,0): 1}\<close> and
  \<open>{(12,0): 1}\<close> to the same key, \<open>SNew.insert\<close> does not overwrite, and the second
  term is lost with its amplitude.
\<close>

theorem addPhoton_merges_terms:
  "(let S = \<lparr>terms = [([((0, 0), 0), ((12, 0), 1)], 1 / 2), ([((12, 0), 1)], 1 / 2)],
              waves = [[0, 0]], basis = [[1]],
              get_ovlp = trivOvlF, tol = 1 / 10 ^ 9, lossMode = 13\<rparr>
    in fm_ok (terms S) \<and> list_all (\<lambda>t. fm_ok (fst t)) (terms S)
     \<and> \<bar>trivOvlF [0, 0] (waves S ! 0)\<bar> = 1
     \<and> incr 0 0 1 [((0, 0), 0), ((12, 0), 1)] = incr 0 0 1 [((12, 0), 1)]
     \<and> addPhoton S [0, 0] 0 1 = Some (S\<lparr>terms := [([((0, 0), 1), ((12, 0), 1)], 1 / 2)]\<rparr>))"
  by (simp add: Let_def fm_ok_def trivOvlF_def addPhoton_def incr_def)

section \<open>The two-mode unitary: sorted maps and amplitudes\<close>


subsection \<open>Keys and order of the three insertions\<close>

lemma insert_or_assign_keys: "fst ` set (insert_or_assign k v xs) = insert k (fst ` set xs)"
proof (induction xs)
  case Nil
  then show ?case by simp
next
  case (Cons x xs)
  obtain k' v' where x: "x = (k', v')" by (cases x)
  consider "k < k'" | "k = k'" | "\<not> k < k'" "k \<noteq> k'" by blast
  then show ?case
  proof cases
    case 1
    then show ?thesis by (simp add: x)
  next
    case 2
    then show ?thesis by (simp add: x)
  next
    case 3
    then show ?thesis using Cons.IH by (simp add: x insert_commute)
  qed
qed

lemma emplace_add_keys: "fst ` set (emplace_add k v xs) = insert k (fst ` set xs)"
proof (induction xs)
  case Nil
  then show ?case by simp
next
  case (Cons x xs)
  obtain k' v' where x: "x = (k', v')" by (cases x)
  consider "k < k'" | "k = k'" | "\<not> k < k'" "k \<noteq> k'" by blast
  then show ?case
  proof cases
    case 1
    then show ?thesis by (simp add: x)
  next
    case 2
    then show ?thesis by (simp add: x)
  next
    case 3
    then show ?thesis using Cons.IH by (simp add: x insert_commute)
  qed
qed

lemma insert_or_assign_fm_ok: "fm_ok xs \<Longrightarrow> fm_ok (insert_or_assign k v xs)"
proof (induction xs)
  case Nil
  then show ?case by (simp add: fm_ok_def)
next
  case (Cons x xs)
  obtain k' v' where x: "x = (k', v')" by (cases x)
  have gt: "\<forall>y \<in> fst ` set xs. k' < y" and ok: "fm_ok xs"
    using Cons.prems by (simp_all add: x fm_ok_Cons)
  consider "k < k'" | "k = k'" | "\<not> k < k'" "k \<noteq> k'" by blast
  then show ?case
  proof cases
    case 1
    then have "\<forall>y \<in> fst ` set ((k', v') # xs). k < y" using gt by auto
    then show ?thesis using 1 Cons.prems by (simp add: x fm_ok_Cons)
  next
    case 2
    then show ?thesis using gt ok by (simp add: x fm_ok_Cons)
  next
    case 3
    then have "k' < k" by simp
    then have "\<forall>y \<in> fst ` set (insert_or_assign k v xs). k' < y"
      using gt by (simp add: insert_or_assign_keys)
    then show ?thesis using 3 Cons.IH [OF ok] by (simp add: x fm_ok_Cons)
  qed
qed

lemma emplace_add_fm_ok: "fm_ok xs \<Longrightarrow> fm_ok (emplace_add k v xs)"
proof (induction xs)
  case Nil
  then show ?case by (simp add: fm_ok_def)
next
  case (Cons x xs)
  obtain k' v' where x: "x = (k', v')" by (cases x)
  have gt: "\<forall>y \<in> fst ` set xs. k' < y" and ok: "fm_ok xs"
    using Cons.prems by (simp_all add: x fm_ok_Cons)
  consider "k < k'" | "k = k'" | "\<not> k < k'" "k \<noteq> k'" by blast
  then show ?case
  proof cases
    case 1
    then have "\<forall>y \<in> fst ` set ((k', v') # xs). k < y" using gt by auto
    then show ?thesis using 1 Cons.prems by (simp add: x fm_ok_Cons)
  next
    case 2
    then show ?thesis using gt ok by (simp add: x fm_ok_Cons)
  next
    case 3
    then have "k' < k" by simp
    then have "\<forall>y \<in> fst ` set (emplace_add k v xs). k' < y"
      using gt by (simp add: emplace_add_keys)
    then show ?thesis using 3 Cons.IH [OF ok] by (simp add: x fm_ok_Cons)
  qed
qed

lemma insert_or_assign_append:
  "\<forall>k' \<in> fst ` set xs. k' < k \<Longrightarrow> insert_or_assign k v xs = xs @ [(k, v)]"
  by (induction xs) auto

lemma fm_ok_Nil: "fm_ok []"
  by (simp add: fm_ok_def)

lemma fm_ok_distinct: "fm_ok xs \<Longrightarrow> distinct (map fst xs)"
  by (simp add: fm_ok_def strict_sorted_iff)


subsection \<open>Looking amplitudes up\<close>


lemma map_of_emplace_add:
  fixes v :: "'v :: plus"
  assumes "fm_ok xs"
  shows "map_of (emplace_add k v xs) k' =
     (if k' = k then Some (case map_of xs k of None \<Rightarrow> v | Some w \<Rightarrow> w + v) else map_of xs k')"
  using assms
proof (induction xs)
  case Nil
  then show ?case by simp
next
  case (Cons x xs)
  obtain k1 v1 where x: "x = (k1, v1)" by (cases x)
  have gt: "\<forall>y \<in> fst ` set xs. k1 < y" and ok: "fm_ok xs"
    using Cons.prems by (simp_all add: x fm_ok_Cons)
  show ?case
  proof (cases "k < k1")
    case True
    then have "\<forall>y \<in> fst ` set xs. k < y" using gt by auto
    then have "map_of xs k = None" by (rule map_of_less)
    moreover have "k \<noteq> k1" using True by simp
    ultimately show ?thesis using True by (simp add: x)
  next
    case False
    then show ?thesis using Cons.IH [OF ok] by (auto simp: x)
  qed
qed

lemma amp_emplace_add:
  "fm_ok R \<Longrightarrow> amp (emplace_add K v R) K' = amp R K' + (if K' = K then v else 0)"
  by (simp add: amp_def map_of_emplace_add split: option.splits)


lemma amp_Nil: "amp [] K = 0"
  by (simp add: amp_def)



subsection \<open>Folds that write into a sorted map\<close>

lemma fold_insert_or_assign_filter:
  "sorted_wrt (<) (map fst (acc @ xs)) \<Longrightarrow>
   fold (\<lambda>(k, v) p. if P k v then insert_or_assign k (f k v) p else p) xs acc
     = acc @ map (\<lambda>(k, v). (k, f k v)) (filter (\<lambda>(k, v). P k v) xs)"
proof (induction xs arbitrary: acc)
  case Nil
  then show ?case by simp
next
  case (Cons x xs)
  obtain k v where x: "x = (k, v)" by (cases x)
  from Cons.prems have lt: "\<forall>k' \<in> fst ` set acc. k' < k"
    by (auto simp: x sorted_wrt_append)
  show ?case
  proof (cases "P k v")
    case True
    have s: "sorted_wrt (<) (map fst ((acc @ [(k, f k v)]) @ xs))"
      using Cons.prems by (simp add: x)
    show ?thesis
      using Cons.IH [OF s] True lt by (simp add: x insert_or_assign_append)
  next
    case False
    have s: "sorted_wrt (<) (map fst (acc @ xs))"
      using Cons.prems by (auto simp: x sorted_wrt_append)
    show ?thesis
      using Cons.IH [OF s] False by (simp add: x)
  qed
qed

lemma Key_clean_filter: "fm_ok K \<Longrightarrow> Key_clean K = filter (\<lambda>(k, n). n > 0) K"
  using fold_insert_or_assign_filter [of "[]" K "\<lambda>k n. n > 0" "\<lambda>k n. n"]
  by (simp add: Key_clean_def fm_ok_def)



lemma fold_insert_or_assign_fm_ok:
  "fm_ok R0 \<Longrightarrow> fm_ok (fold (\<lambda>x R. insert_or_assign (kf x) (vf x) R) xs R0)"
  by (induction xs arbitrary: R0) (simp_all add: insert_or_assign_fm_ok)

lemma fold_insert_or_assign_keys:
  "fst ` set (fold (\<lambda>x R. insert_or_assign (kf x) (vf x) R) xs R0) = kf ` set xs \<union> fst ` set R0"
  by (induction xs arbitrary: R0) (auto simp: insert_or_assign_keys)

subsection \<open>The product of two maps\<close>

lemma conv_inner:
  assumes "fm_ok acc"
  shows "fm_ok (fold (\<lambda>(Kr, vr) R2. emplace_add (Key_add Ki Kr) (vi * vr) R2) R acc)
       \<and> amp (fold (\<lambda>(Kr, vr) R2. emplace_add (Key_add Ki Kr) (vi * vr) R2) R acc) K'
           = amp acc K' + (\<Sum>(Kr, vr)\<leftarrow>R. if Key_add Ki Kr = K' then vi * vr else 0)"
  using assms
proof (induction R arbitrary: acc)
  case Nil
  then show ?case by simp
next
  case (Cons x R)
  obtain Kr vr where x: "x = (Kr, vr)" by (cases x)
  have ok: "fm_ok (emplace_add (Key_add Ki Kr) (vi * vr) acc)"
    using Cons.prems by (rule emplace_add_fm_ok)
  show ?case
    using Cons.IH [OF ok] Cons.prems by (simp add: x amp_emplace_add)
qed

lemma conv_outer:
  assumes "fm_ok acc"
  shows "fm_ok (fold (\<lambda>(Ki, vi) RetIter2.
                  fold (\<lambda>(Kr, vr) R2. emplace_add (Key_add Ki Kr) (vi * vr) R2) R RetIter2) B acc)
       \<and> amp (fold (\<lambda>(Ki, vi) RetIter2.
                  fold (\<lambda>(Kr, vr) R2. emplace_add (Key_add Ki Kr) (vi * vr) R2) R RetIter2) B acc) K'
           = amp acc K' + (\<Sum>(Ki, vi)\<leftarrow>B. \<Sum>(Kr, vr)\<leftarrow>R.
                              if Key_add Ki Kr = K' then vi * vr else 0)"
  using assms
proof (induction B arbitrary: acc)
  case Nil
  then show ?case by simp
next
  case (Cons x B)
  obtain Ki vi where x: "x = (Ki, vi)" by (cases x)
  let ?acc = "fold (\<lambda>(Kr, vr) R2. emplace_add (Key_add Ki Kr) (vi * vr) R2) R acc"
  have ok: "fm_ok ?acc" and a: "amp ?acc K'
      = amp acc K' + (\<Sum>(Kr, vr)\<leftarrow>R. if Key_add Ki Kr = K' then vi * vr else 0)"
    using conv_inner [OF Cons.prems, of Ki vi R K'] by simp_all
  show ?case
    using Cons.IH [OF ok] a by (simp add: x)
qed

lemma apply_conv_fm_ok: "fm_ok (apply_conv B R)"
  using conv_outer [OF fm_ok_Nil, of R B] by (simp add: apply_conv_def)


subsection \<open>Maps with one amplitude that is not zero\<close>



subsection \<open>Factorials\<close>

lemma facut_pos: "0 < facut n"
proof (induction n rule: facut.induct)
  case (1 i)
  show ?case
  proof (cases "i \<le> 12")
    case True
    then have "nat i < length FACUT12" by (simp add: FACUT12_def)
    then have "FACUT12 ! nat i \<in> set FACUT12" by (rule nth_mem)
    moreover have "\<forall>x \<in> set FACUT12. 0 < x" by (simp add: FACUT12_def)
    ultimately have "0 < FACUT12 ! nat i" by blast
    then show ?thesis using True by (simp add: facut.simps [of i])
  next
    case False
    then have "0 < facut (i - 1)" using 1 by simp
    then show ?thesis using False by (simp add: facut.simps [of i])
  qed
qed

lemma facut_0: "facut 0 = 1"
  by (simp add: facut.simps [of 0] FACUT12_def)

lemma binomialCoeff_n_n: "binomialCoeff n n = 1"
  using facut_pos [of n] by (simp add: binomialCoeff_def facut_0)

lemma binomialCoeff_n_0: "binomialCoeff n 0 = 1"
  using facut_pos [of n] by (simp add: binomialCoeff_def facut_0)

subsection \<open>The keys of the branches\<close>

lemma branch_key:
  assumes "a \<noteq> b"
  shows "Key_clean (insert_or_assign (b, d) c2 (Key3 a d c1)) =
     (if a < b then filter (\<lambda>(k, c). c > 0) [((a, d), c1), ((b, d), c2)]
      else filter (\<lambda>(k, c). c > 0) [((b, d), c2), ((a, d), c1)])"
proof (cases "a < b")
  case True
  have "insert_or_assign (b, d) c2 (Key3 a d c1) = [((a, d), c1), ((b, d), c2)]"
    using True by (simp add: Key3_def)
  moreover have "fm_ok [((a, d), c1), ((b, d), c2)]" using True by (simp add: fm_ok_def)
  ultimately show ?thesis using True by (simp only: Key_clean_filter if_True)
next
  case False
  then have ba: "b < a" using assms by simp
  have "insert_or_assign (b, d) c2 (Key3 a d c1) = [((b, d), c2), ((a, d), c1)]"
    using ba by (simp add: Key3_def)
  moreover have "fm_ok [((b, d), c2), ((a, d), c1)]" using ba by (simp add: fm_ok_def)
  ultimately show ?thesis using False by (simp only: Key_clean_filter if_False)
qed

lemma branch_key_full:
  assumes "a \<noteq> b" and "0 < n"
  shows "Key_clean (insert_or_assign (b, d) (n - n) (Key3 a d n)) = [((a, d), n)]"
  using assms by (simp add: branch_key)

lemma branch_key_none:
  assumes "a \<noteq> b" and "0 < n"
  shows "Key_clean (insert_or_assign (b, d) (n - 0) (Key3 a d 0)) = [((b, d), n)]"
  using assms by (simp add: branch_key)

lemma branch_key_inj:
  assumes "a \<noteq> b"
  shows "inj_on (\<lambda>j. Key_clean (insert_or_assign (b, d) (n - j) (Key3 a d j))) (set [0..n])"
proof (rule inj_onI)
  fix j j' assume j: "j \<in> set [0..n]" and j': "j' \<in> set [0..n]"
    and eq: "Key_clean (insert_or_assign (b, d) (n - j) (Key3 a d j))
           = Key_clean (insert_or_assign (b, d) (n - j') (Key3 a d j'))"
  have r: "0 \<le> j" "j \<le> n" "0 \<le> j'" "j' \<le> n" using j j' by simp_all
  have "map_of (Key_clean (insert_or_assign (b, d) (n - j) (Key3 a d j))) (a, d)
      = (if 0 < j then Some j else None)" for j
    using assms by (simp add: branch_key)
  then have "(if 0 < j then Some j else None) = (if 0 < j' then Some j' else None)"
    using eq by metis
  then show "j = j'" using r by (auto split: if_splits)
qed

subsection \<open>The branches of an entry under the identity\<close>








lemma apply_branches_pairs:
  assumes "a \<noteq> b"
  shows "\<forall>K \<in> fst ` set (apply_branches U [a, b] i d n). \<forall>p \<in> fst ` set K. fst p = a \<or> fst p = b"
proof -
  have "fst ` set (apply_branches U [a, b] i d n)
      = (\<lambda>j. Key_clean (insert_or_assign (b, d) (n - j) (Key3 a d j))) ` set [0..n]"
    unfolding apply_branches_def by (simp add: fold_insert_or_assign_keys)
  then show ?thesis using assms by (auto simp: branch_key split: if_splits)
qed

subsection \<open>Adding a key whose pairs all come first\<close>




lemma Key_add_keys: "fst ` set (Key_add K p) = fst ` set K \<union> fst ` set p"
  unfolding Key_add_def
proof (induction p arbitrary: K)
  case Nil
  then show ?case by simp
next
  case (Cons x p)
  obtain k n where x: "x = (k, n)" by (cases x)
  show ?case using Cons [of "emplace_add k n K"] by (auto simp: x emplace_add_keys)
qed

subsection \<open>An entry at another mode\<close>

lemma filter_insert_or_assign:
  "p \<notin> fst ` set K \<Longrightarrow> filter (\<lambda>e. fst e \<noteq> p) (insert_or_assign p n K) = K"
proof (induction K)
  case Nil
  then show ?case by simp
next
  case (Cons e K)
  obtain k c where e: "e = (k, c)" by (cases e)
  have neq: "p \<noteq> k" and rest: "p \<notin> fst ` set K" using Cons.prems by (auto simp: e)
  show ?case
  proof (cases "p < k")
    case True
    have "filter (\<lambda>e. fst e \<noteq> p) K = K" using rest by (rule filter_other)
    then show ?thesis using True neq by (simp add: e)
  next
    case False
    then show ?thesis using neq Cons.IH [OF rest] by (simp add: e)
  qed
qed

lemma insert_or_assign_inj_on:
  assumes "\<forall>K \<in> A. p \<notin> fst ` set K"
  shows "inj_on (insert_or_assign p n) A"
proof (rule inj_on_inverseI)
  fix K assume "K \<in> A"
  then show "filter (\<lambda>e. fst e \<noteq> p) (insert_or_assign p n K) = K"
    using assms by (simp add: filter_insert_or_assign)
qed

lemma apply_pass_fm_ok: "fm_ok (apply_pass m d n R)"
  unfolding apply_pass_def case_prod_unfold
  by (rule fold_insert_or_assign_fm_ok) (rule fm_ok_Nil)

lemma apply_pass_keys:
  "fst ` set (apply_pass m d n R) = (\<lambda>K. insert_or_assign (m, d) n K) ` fst ` set R"
  unfolding apply_pass_def case_prod_unfold
  by (simp add: fold_insert_or_assign_keys image_image)



subsection \<open>An entry at one of the two modes\<close>


lemma conv_keys_inner:
  "fst ` set (fold (\<lambda>(Kr, vr) R2. emplace_add (Key_add Ki Kr) (vi * vr) R2) R acc)
     = Key_add Ki ` fst ` set R \<union> fst ` set acc"
proof (induction R arbitrary: acc)
  case Nil
  then show ?case by simp
next
  case (Cons x R)
  obtain Kr vr where x: "x = (Kr, vr)" by (cases x)
  show ?case using Cons [of "emplace_add (Key_add Ki Kr) (vi * vr) acc"]
    by (auto simp: x emplace_add_keys)
qed

lemma conv_keys_outer:
  "fst ` set (fold (\<lambda>(Ki, vi) RetIter2.
                  fold (\<lambda>(Kr, vr) R2. emplace_add (Key_add Ki Kr) (vi * vr) R2) R RetIter2) B acc)
     = (\<Union>Ki \<in> fst ` set B. Key_add Ki ` fst ` set R) \<union> fst ` set acc"
proof (induction B arbitrary: acc)
  case Nil
  then show ?case by simp
next
  case (Cons x B)
  obtain Ki vi where x: "x = (Ki, vi)" by (cases x)
  show ?case
    using Cons [of "fold (\<lambda>(Kr, vr) R2. emplace_add (Key_add Ki Kr) (vi * vr) R2) R acc"]
    by (simp add: x conv_keys_inner Un_assoc Un_left_commute)
qed

lemma apply_conv_keys:
  "fst ` set (apply_conv B R) = (\<Union>Ki \<in> fst ` set B. Key_add Ki ` fst ` set R)"
  using conv_keys_outer [of R B "[]"] by (simp add: apply_conv_def)

subsection \<open>The normalization factor\<close>




subsection \<open>The loop over the entries, for the identity\<close>



subsection \<open>The last loop\<close>



lemma apply_finish_sorted:
  "fm_ok Ret \<Longrightarrow>
   apply_finish [a, b] t Ret
     = map (\<lambda>(K, v). (K, v * factor2 K a b)) (filter (\<lambda>(K, v). \<bar>v\<bar> > t) Ret)"
  using fold_insert_or_assign_filter [of "[]" Ret "\<lambda>K v. \<bar>v\<bar> > t" "\<lambda>K v. v * factor2 K a b"]
  by (simp add: apply_finish_def fm_ok_def cong: if_cong)


section \<open>The identity as a two-mode unitary\<close>


lemma facut_1: "facut 1 = 1"
  by (simp add: facut.simps [of 1] FACUT12_def)


lemma sqrt2_less_2: "sqrt 2 < 2"
  by (rule real_less_lsqrt) simp_all




lemma upto_0_0: "[0..0 :: int] = [0]"
  by (simp add: upto.simps)









section \<open>Two photons at a beam splitter\<close>

lemma upto_0_1: "[0..1 :: int] = [0, 1]"
  by (simp add: upto.simps)

lemma apply_amp_1_1: "apply_amp U i 1 1 = U ! i"
  by (simp add: apply_amp_def binomialCoeff_n_n facut_1)

lemma apply_amp_1_0: "apply_amp U i 1 0 = U ! (i + 2)"
  by (simp add: apply_amp_def binomialCoeff_n_0 facut_1)

lemma apply_branches_1:
  assumes "a \<noteq> b"
  shows "apply_branches U [a, b] i d 1 =
     (if a < b then [([((a, d), 1)], U ! i), ([((b, d), 1)], U ! (i + 2))]
      else [([((b, d), 1)], U ! (i + 2)), ([((a, d), 1)], U ! i)])"
proof -
  have k0: "Key_clean (insert_or_assign (b, d) (1 - 0) (Key3 a d 0)) = [((b, d), 1)]"
    using branch_key_none [OF assms, of 1 d] by simp
  have k1: "Key_clean (insert_or_assign (b, d) (1 - 1) (Key3 a d 1)) = [((a, d), 1)]"
    using branch_key_full [OF assms, of 1 d] by simp
  have n0: "[a, b] ! 0 = a" and n1: "[a, b] ! 1 = b" by simp_all
  have "apply_branches U [a, b] i d 1 =
      insert_or_assign [((a, d), 1)] (U ! i) [([((b, d), 1)], U ! (i + 2))]"
    unfolding apply_branches_def upto_0_1
    by (simp only: fold_simps n0 n1 k0 k1
        apply_amp_1_0 apply_amp_1_1 insert_or_assign.simps id_apply o_apply)
  then show ?thesis using assms by auto
qed


lemma apply_conv_one: "apply_conv B [([], 1)] = fold (\<lambda>(Ki, vi) R. emplace_add Ki vi R) B []"
  by (simp add: apply_conv_def Key_add_def)

lemma fold_emplace_add_sorted:
  "sorted_wrt (<) (map fst (acc @ xs)) \<Longrightarrow>
   fold (\<lambda>(k, v) R. emplace_add k v R) xs acc = acc @ xs"
proof (induction xs arbitrary: acc)
  case Nil
  then show ?case by simp
next
  case (Cons x xs)
  obtain k v where x: "x = (k, v)" by (cases x)
  from Cons.prems have lt: "\<forall>k' \<in> fst ` set acc. k' < k"
    by (auto simp: x sorted_wrt_append)
  have s: "sorted_wrt (<) (map fst ((acc @ [(k, v)]) @ xs))"
    using Cons.prems by (simp add: x)
  show ?case using Cons.IH [OF s] lt by (simp add: x emplace_add_append)
qed

lemma apply_conv_one_sorted: "fm_ok B \<Longrightarrow> apply_conv B [([], 1)] = B"
  using fold_emplace_add_sorted [of "[]" B] by (simp add: apply_conv_one fm_ok_def)

lemma Ret_distinguishable_lt:
  assumes "a < b"
  shows "fold (apply_entry U [a, b]) [((a, 0), 1), ((b, 1), 1)] [([], 1)] =
     [([((a, 0), 1), ((a, 1), 1)], U ! 1 * U ! 0),
      ([((a, 0), 1), ((b, 1), 1)], U ! 3 * U ! 0),
      ([((a, 1), 1), ((b, 0), 1)], U ! 1 * U ! 2),
      ([((b, 0), 1), ((b, 1), 1)], U ! 3 * U ! 2)]"
proof -
  have ab: "a \<noteq> b" using assms by simp
  have B1: "apply_branches U [a, b] 0 0 1 = [([((a, 0), 1)], U ! 0), ([((b, 0), 1)], U ! 2)]"
    using assms by (simp add: apply_branches_1 [OF ab] numeral_2_eq_2)
  have B2: "apply_branches U [a, b] (Suc 0) 1 1 = [([((a, 1), 1)], U ! Suc 0), ([((b, 1), 1)], U ! 3)]"
    using assms by (simp add: apply_branches_1 [OF ab] numeral_3_eq_3)
  have e1: "apply_entry U [a, b] ((a, 0), 1) [([], 1)] = [([((a, 0), 1)], U ! 0), ([((b, 0), 1)], U ! 2)]"
    using assms by (simp add: apply_entry_def B1 apply_conv_one_sorted fm_ok_def)
  have e2: "apply_entry U [a, b] ((b, 1), 1) [([((a, 0), 1)], U ! 0), ([((b, 0), 1)], U ! 2)] =
     apply_conv [([((a, 1), 1)], U ! 1), ([((b, 1), 1)], U ! 3)]
                [([((a, 0), 1)], U ! 0), ([((b, 0), 1)], U ! 2)]"
    using ab by (simp add: apply_entry_def B2)
  have c: "apply_conv [([((a, 1), 1)], x1), ([((b, 1), 1)], x3)]
                [([((a, 0), 1)], x0), ([((b, 0), 1)], x2)] =
     [([((a, 0), 1), ((a, 1), 1)], x1 * x0),
      ([((a, 0), 1), ((b, 1), 1)], x3 * x0),
      ([((a, 1), 1), ((b, 0), 1)], x1 * x2),
      ([((b, 0), 1), ((b, 1), 1)], x3 * x2)]" for x0 x1 x2 x3 :: real
    using assms by (simp add: apply_conv_def Key_add_def)
  show ?thesis by (simp add: e1 e2 c)
qed

lemma Ret_distinguishable_gt:
  assumes "b < a"
  shows "fold (apply_entry U [a, b]) [((b, 1), 1), ((a, 0), 1)] [([], 1)] =
     [([((b, 0), 1), ((b, 1), 1)], U ! 2 * U ! 3),
      ([((b, 0), 1), ((a, 1), 1)], U ! 2 * U ! 1),
      ([((b, 1), 1), ((a, 0), 1)], U ! 0 * U ! 3),
      ([((a, 0), 1), ((a, 1), 1)], U ! 0 * U ! 1)]"
proof -
  have ab: "a \<noteq> b" using assms by simp
  have nlt: "\<not> a < b" using assms by simp
  have B1: "apply_branches U [a, b] 0 0 1 = [([((b, 0), 1)], U ! 2), ([((a, 0), 1)], U ! 0)]"
    using nlt by (simp add: apply_branches_1 [OF ab] numeral_2_eq_2)
  have B2: "apply_branches U [a, b] (Suc 0) 1 1 = [([((b, 1), 1)], U ! 3), ([((a, 1), 1)], U ! Suc 0)]"
    using nlt by (simp add: apply_branches_1 [OF ab] numeral_3_eq_3)
  have e1: "apply_entry U [a, b] ((b, 1), 1) [([], 1)] = [([((b, 1), 1)], U ! 3), ([((a, 1), 1)], U ! 1)]"
    using assms ab by (simp add: apply_entry_def B2 apply_conv_one_sorted fm_ok_def)
  have e2: "apply_entry U [a, b] ((a, 0), 1) [([((b, 1), 1)], U ! 3), ([((a, 1), 1)], U ! 1)] =
     apply_conv [([((b, 0), 1)], U ! 2), ([((a, 0), 1)], U ! 0)]
                [([((b, 1), 1)], U ! 3), ([((a, 1), 1)], U ! 1)]"
    using ab by (simp add: apply_entry_def B1)
  have c: "apply_conv [([((b, 0), 1)], x2), ([((a, 0), 1)], x0)]
                [([((b, 1), 1)], x3), ([((a, 1), 1)], x1)] =
     [([((b, 0), 1), ((b, 1), 1)], x2 * x3),
      ([((b, 0), 1), ((a, 1), 1)], x2 * x1),
      ([((b, 1), 1), ((a, 0), 1)], x0 * x3),
      ([((a, 0), 1), ((a, 1), 1)], x0 * x1)]" for x0 x1 x2 x3 :: real
    using assms by (simp add: apply_conv_def Key_add_def)
  show ?thesis by (simp only: fold_simps e1 e2 c o_apply id_apply)
qed

lemma factor2_two_single: "factor2 [(p, 1), (q, 1)] a b = 1"
  by (cases p; cases q) (simp add: factor2_def facut_1)

lemma half_sqrt2: "1 / sqrt 2 * (1 / sqrt 2) = (1 / 2 :: real)"
  by simp

lemma Key_apply_distinguishable_lt:
  assumes ab: "a < b" and t: "0 \<le> t" "t < 1 / 2"
  shows "Key_apply [((a, 0), 1), ((b, 1), 1)] [1 / sqrt 2, 1 / sqrt 2, 1 / sqrt 2, - (1 / sqrt 2)] [a, b] t =
     [([((a, 0), 1), ((a, 1), 1)], 1 / 2),
      ([((a, 0), 1), ((b, 1), 1)], - (1 / 2)),
      ([((a, 1), 1), ((b, 0), 1)], 1 / 2),
      ([((b, 0), 1), ((b, 1), 1)], - (1 / 2))]"
proof -
  let ?U = "[1 / sqrt 2, 1 / sqrt 2, 1 / sqrt 2, - (1 / sqrt 2)] :: real list"
  have u: "?U ! 1 * ?U ! 0 = 1 / 2" "?U ! 3 * ?U ! 0 = - (1 / 2)"
    "?U ! 1 * ?U ! 2 = 1 / 2" "?U ! 3 * ?U ! 2 = - (1 / 2)"
    by (simp_all add: numeral_3_eq_3 numeral_2_eq_2)
  have r: "fold (apply_entry ?U [a, b]) [((a, 0), 1), ((b, 1), 1)] [([], 1)] =
     [([((a, 0), 1), ((a, 1), 1)], 1 / 2),
      ([((a, 0), 1), ((b, 1), 1)], - (1 / 2)),
      ([((a, 1), 1), ((b, 0), 1)], 1 / 2),
      ([((b, 0), 1), ((b, 1), 1)], - (1 / 2))]"
    unfolding Ret_distinguishable_lt [OF ab] u ..
  have ok: "fm_ok [([((a :: int, 0 :: int), 1 :: int), ((a, 1), 1)], 1 / 2 :: real),
      ([((a, 0), 1), ((b, 1), 1)], - (1 / 2)),
      ([((a, 1), 1), ((b, 0), 1)], 1 / 2),
      ([((b, 0), 1), ((b, 1), 1)], - (1 / 2))]"
    using ab by (simp add: fm_ok_def)
  show ?thesis
    unfolding Key_apply_def r apply_finish_sorted [OF ok]
    using t by (simp add: factor2_two_single)
qed

lemma Key_apply_distinguishable_gt:
  assumes ab: "b < a" and t: "0 \<le> t" "t < 1 / 2"
  shows "Key_apply [((b, 1), 1), ((a, 0), 1)] [1 / sqrt 2, 1 / sqrt 2, 1 / sqrt 2, - (1 / sqrt 2)] [a, b] t =
     [([((b, 0), 1), ((b, 1), 1)], - (1 / 2)),
      ([((b, 0), 1), ((a, 1), 1)], 1 / 2),
      ([((b, 1), 1), ((a, 0), 1)], - (1 / 2)),
      ([((a, 0), 1), ((a, 1), 1)], 1 / 2)]"
proof -
  let ?U = "[1 / sqrt 2, 1 / sqrt 2, 1 / sqrt 2, - (1 / sqrt 2)] :: real list"
  have u: "?U ! 2 * ?U ! 3 = - (1 / 2)" "?U ! 2 * ?U ! 1 = 1 / 2"
    "?U ! 0 * ?U ! 3 = - (1 / 2)" "?U ! 0 * ?U ! 1 = 1 / 2"
    by (simp_all add: numeral_3_eq_3 numeral_2_eq_2)
  have r: "fold (apply_entry ?U [a, b]) [((b, 1), 1), ((a, 0), 1)] [([], 1)] =
     [([((b, 0), 1), ((b, 1), 1)], - (1 / 2)),
      ([((b, 0), 1), ((a, 1), 1)], 1 / 2),
      ([((b, 1), 1), ((a, 0), 1)], - (1 / 2)),
      ([((a, 0), 1), ((a, 1), 1)], 1 / 2)]"
    unfolding Ret_distinguishable_gt [OF ab] u ..
  have ok: "fm_ok [([((b :: int, 0 :: int), 1 :: int), ((b, 1), 1)], - (1 / 2) :: real),
      ([((b, 0), 1), ((a, 1), 1)], 1 / 2),
      ([((b, 1), 1), ((a, 0), 1)], - (1 / 2)),
      ([((a, 0), 1), ((a, 1), 1)], 1 / 2)]"
    using ab by (simp add: fm_ok_def)
  show ?thesis
    unfolding Key_apply_def r apply_finish_sorted [OF ok]
    using t by (simp add: factor2_two_single)
qed

lemma State_add_fm_ok: "fm_ok acc \<Longrightarrow> fm_ok (State_add R v acc)"
  unfolding State_add_def
  by (induction R arbitrary: acc) (auto simp: emplace_add_fm_ok)

lemma State_add_Cons:
  "State_add ((K, x) # R) v acc = State_add R v (emplace_add K (v * x) acc)"
  by (simp add: State_add_def)

lemma State_add_Nil: "State_add [] v acc = acc"
  by (simp add: State_add_def)

lemma amp_State_add_zero: "fm_ok acc \<Longrightarrow> amp (State_add R 0 acc) K = amp acc K"
proof (induction R arbitrary: acc)
  case Nil
  then show ?case by (simp add: State_add_Nil)
next
  case (Cons e R)
  obtain K' x where e: "e = (K', x)" by (cases e)
  have ok: "fm_ok (emplace_add K' (0 * x) acc)" using Cons.prems by (rule emplace_add_fm_ok)
  show ?case
    using Cons.IH [OF ok] Cons.prems by (simp add: e State_add_Cons amp_emplace_add)
qed

lemma map_of_filter_value:
  "distinct (map fst R) \<Longrightarrow>
   map_of (filter (\<lambda>(k, v). P v) R) K =
     (case map_of R K of None \<Rightarrow> None | Some v \<Rightarrow> if P v then Some v else None)"
proof (induction R)
  case Nil
  then show ?case by simp
next
  case (Cons e R)
  obtain k v where e: "e = (k, v)" by (cases e)
  have d: "distinct (map fst R)" and nk: "k \<notin> fst ` set R" using Cons.prems by (simp_all add: e)
  have none: "map_of R k = None" using nk by (simp add: map_of_eq_None_iff)
  show ?case using Cons.IH [OF d] none by (auto simp: e)
qed

lemma amp_clean:
  assumes "fm_ok (terms S)" and "0 \<le> tol S"
  shows "amp (terms (clean S)) K = (if \<bar>amp (terms S) K\<bar> > tol S then amp (terms S) K else 0)"
  using assms(2)
  by (simp add: clean_terms [OF assms(1)] amp_def
      map_of_filter_value [OF fm_ok_distinct [OF assms(1)]] split: option.splits)

lemma clean_fm_ok: "fm_ok (terms S) \<Longrightarrow> fm_ok (terms (clean S))"
  by (simp add: clean_terms fm_ok_def sorted_wrt_filter sorted_wrt_map)

lemma two_photons_terms:
  assumes ab: "a \<noteq> b"
    and e: "terms S0 = []" "waves S0 = []" "basis S0 = []"
    and o: "get_ovlp S0 f2 f1 = 0" "get_ovlp S0 f1 f2 = 0"
    and pos: "0 < get_ovlp S0 f2 f2"
  shows "\<exists>S1 S2. addPhoton S0 f1 a 1 = Some S1 \<and> addPhoton S1 f2 b 1 = Some S2
           \<and> tol S2 = tol S0
           \<and> terms S2 = [(addEnd b 0 1 (Key3 a 0 1), 0), (addEnd b 1 1 (Key3 a 0 1), 1)]"
proof -
  let ?g = "get_ovlp S0"
  define T0 where "T0 = (if a \<ge> lossMode S0 then S0\<lparr>lossMode := a + 1\<rparr> else S0)"
  define S1 where "S1 = T0\<lparr>terms := [(Key3 a 0 1, 1)], waves := [f1], basis := [[1]]\<rparr>"
  have T0: "terms T0 = []" "waves T0 = []" "basis T0 = []" "get_ovlp T0 = ?g" "tol T0 = tol S0"
    by (simp_all add: T0_def e)
  have s1: "addPhoton S0 f1 a 1 = Some S1"
    unfolding addPhoton_def by (simp add: Let_def T0_def [symmetric] T0 S1_def)
  define T1 where "T1 = (if b \<ge> lossMode S1 then S1\<lparr>lossMode := b + 1\<rparr> else S1)"
  have T1: "terms T1 = [(Key3 a 0 1, 1)]" "waves T1 = [f1]" "basis T1 = [[1]]"
    "get_ovlp T1 = ?g" "tol T1 = tol S0"
    by (simp_all add: T1_def S1_def T0)
  have wb: "wf_basis T1" by (simp add: wf_basis_def T1)
  have o1: "\<forall>w \<in> set (waves T1). get_ovlp T1 w f2 = 0" using o by (simp add: T1)
  have posT: "0 < get_ovlp T1 f2 f2" using pos by (simp add: T1)
  have fw: "find_wave ?g f2 [f1] 0 = None" using o by simp
  have abe: "addBasisElem T1 f2 =
     Some (T1\<lparr>waves := [f1, f2], basis := [[1], [0, 1 / sqrt (?g f2 f2)]]\<rparr>, [0, 1])"
    using addBasisElem_orthogonal [OF wb o1 posT] by (simp add: T1)
  define K0 where "K0 = addEnd b 0 1 (Key3 a 0 1)"
  define K1 where "K1 = addEnd b 1 1 (Key3 a 0 1)"
  have lt: "K0 < K1" using ab by (auto simp: K0_def K1_def addEnd_def Key3_def)
  have up: "[0..<length [0 :: real, 1]] = [0, 1]" by (simp add: upt_rec)
  have tm: "fold (\<lambda>(K, v) SNew.
               fold (\<lambda>i SN. emplace (addEnd b (int i) 1 K) (v * [0, 1] ! i) SN)
                    [0..<length [0 :: real, 1]] SNew)
            [(Key3 a 0 1, 1 :: real)] [] = [(K0, 0), (K1, 1)]"
    unfolding up K0_def [symmetric] K1_def [symmetric] using lt
    by (simp add: K0_def [symmetric] K1_def [symmetric]) (use lt in auto)
  define S2 where "S2 = T1\<lparr>waves := [f1, f2], basis := [[1], [0, 1 / sqrt (?g f2 f2)]],
                            terms := [(K0, 0), (K1, 1)]\<rparr>"
  have s2: "addPhoton S1 f2 b 1 = Some S2"
    unfolding addPhoton_def
    by (simp only: Let_def T1_def [symmetric] T1 fw abe tm S2_def
        list.size option.case prod.case if_False)
      (use lt in \<open>auto simp: K0_def K1_def\<close>)
  have "tol S2 = tol S0" "terms S2 = [(K0, 0), (K1, 1)]" by (simp_all add: S2_def T1)
  with s1 s2 show ?thesis unfolding K0_def K1_def by blast
qed


lemma amp_State_add:
  "fm_ok acc \<Longrightarrow>
   amp (State_add R v acc) K = amp acc K + v * (\<Sum>e\<leftarrow>R. if fst e = K then snd e else 0)"
proof (induction R arbitrary: acc)
  case Nil
  then show ?case by (simp add: State_add_Nil)
next
  case (Cons e R)
  obtain K' x where e: "e = (K', x)" by (cases e)
  have ok: "fm_ok (emplace_add K' (v * x) acc)" using Cons.prems by (rule emplace_add_fm_ok)
  show ?case
    using Cons.IH [OF ok] Cons.prems
    by (simp add: e State_add_Cons amp_emplace_add algebra_simps)
qed

lemma apply_State_two_terms:
  assumes tm: "terms S = [(K0, 0), (K1, 1)]" and t: "0 \<le> tol S"
  shows "fm_ok (terms (apply_State S U modes))"
    and "amp (terms (apply_State S U modes)) K =
      (let x = (\<Sum>e\<leftarrow>Key_apply K1 U modes (tol S). if fst e = K then snd e else 0)
       in if \<bar>x\<bar> > tol S then x else 0)"
proof -
  let ?A0 = "State_add (Key_apply K0 U modes (tol S)) 0 []"
  let ?A1 = "State_add (Key_apply K1 U modes (tol S)) 1 ?A0"
  let ?T = "S\<lparr>terms := ?A1\<rparr>"
  have a: "apply_State S U modes = clean ?T"
    by (simp add: apply_State_def tm)
  have ok0: "fm_ok ?A0" by (rule State_add_fm_ok) (rule fm_ok_Nil)
  have ok1: "fm_ok ?A1" using ok0 by (rule State_add_fm_ok)
  have okT: "fm_ok (terms ?T)" using ok1 by simp
  have tT: "0 \<le> tol ?T" using t by simp
  have amp0: "amp ?A0 K = 0" using amp_State_add_zero [OF fm_ok_Nil] by (simp add: amp_Nil)
  have amp1: "amp (terms ?T) K =
      (\<Sum>e\<leftarrow>Key_apply K1 U modes (tol S). if fst e = K then snd e else 0)"
    using amp_State_add [OF ok0, of "Key_apply K1 U modes (tol S)" 1 K] amp0 by simp
  show "fm_ok (terms (apply_State S U modes))"
    unfolding a using okT by (rule clean_fm_ok)
  show "amp (terms (apply_State S U modes)) K =
      (let x = (\<Sum>e\<leftarrow>Key_apply K1 U modes (tol S). if fst e = K then snd e else 0)
       in if \<bar>x\<bar> > tol S then x else 0)"
    unfolding a amp_clean [OF okT tT] amp1 by (simp add: Let_def)
qed

text \<open>
  Claim C7, as amended.  Start from a state without terms, wave functions and basis, with
  a tolerance from 0 up to, but not including, 1/2.  Add one photon with wave function
  \<open>f1\<close> at mode \<open>a\<close> and one with wave function \<open>f2\<close> at another mode \<open>b\<close>,
  where \<open>f2\<close> has overlap zero with \<open>f1\<close> (in both orders of the arguments) and a
  positive overlap with itself.  Both calls return, and the balanced beam splitter on
  \<open>(a, b)\<close> yields a sorted map with exactly four amplitudes that are not zero, all of
  magnitude 1/2: \<open>+1/2\<close> for both photons at \<open>a\<close>, \<open>-1/2\<close> for both photons at \<open>b\<close>,
  and \<open>-1/2\<close> and \<open>+1/2\<close> for the two keys with one photon at each mode.  The two
  photons keep their distinguishability modes 0 and 1, so no two branches meet in one key
  and nothing cancels.
\<close>

theorem beam_splitter_distinguishable:
  assumes ab: "a \<noteq> b"
    and e: "terms S0 = []" "waves S0 = []" "basis S0 = []"
    and o: "get_ovlp S0 f2 f1 = 0" "get_ovlp S0 f1 f2 = 0"
    and pos: "0 < get_ovlp S0 f2 f2"
    and t: "0 \<le> tol S0" "tol S0 < 1 / 2"
  shows "\<exists>S1 S2. addPhoton S0 f1 a 1 = Some S1 \<and> addPhoton S1 f2 b 1 = Some S2
     \<and> fm_ok (terms (apply_State S2 [1 / sqrt 2, 1 / sqrt 2, 1 / sqrt 2, - (1 / sqrt 2)] [a, b]))
     \<and> (\<forall>K. amp (terms (apply_State S2 [1 / sqrt 2, 1 / sqrt 2, 1 / sqrt 2, - (1 / sqrt 2)] [a, b])) K =
          (if K = Key_add (Key3 a 0 1) (Key3 a 1 1) then 1 / 2
           else if K = Key_add (Key3 a 0 1) (Key3 b 1 1) then - (1 / 2)
           else if K = Key_add (Key3 a 1 1) (Key3 b 0 1) then 1 / 2
           else if K = Key_add (Key3 b 0 1) (Key3 b 1 1) then - (1 / 2)
           else 0))"
proof -
  let ?U = "[1 / sqrt 2, 1 / sqrt 2, 1 / sqrt 2, - (1 / sqrt 2)] :: real list"
  from two_photons_terms [OF ab e o pos, of] obtain S1 S2 where
    s1: "addPhoton S0 f1 a 1 = Some S1" and s2: "addPhoton S1 f2 b 1 = Some S2"
    and tl: "tol S2 = tol S0"
    and tm: "terms S2 = [(addEnd b 0 1 (Key3 a 0 1), 0), (addEnd b 1 1 (Key3 a 0 1), 1)]"
    by blast
  have t2: "0 \<le> tol S2" "tol S2 < 1 / 2" using t by (simp_all add: tl)
  note r = apply_State_two_terms [OF tm t2(1), of ?U "[a, b]"]
  have "amp (terms (apply_State S2 ?U [a, b])) K =
          (if K = Key_add (Key3 a 0 1) (Key3 a 1 1) then 1 / 2
           else if K = Key_add (Key3 a 0 1) (Key3 b 1 1) then - (1 / 2)
           else if K = Key_add (Key3 a 1 1) (Key3 b 0 1) then 1 / 2
           else if K = Key_add (Key3 b 0 1) (Key3 b 1 1) then - (1 / 2)
           else 0)" for K
  proof (cases "a < b")
    case True
    have k: "addEnd b 1 1 (Key3 a 0 1) = [((a, 0), 1), ((b, 1), 1)]"
      "Key_add (Key3 a 0 1) (Key3 a 1 1) = [((a, 0), 1), ((a, 1), 1)]"
      "Key_add (Key3 a 0 1) (Key3 b 1 1) = [((a, 0), 1), ((b, 1), 1)]"
      "Key_add (Key3 a 1 1) (Key3 b 0 1) = [((a, 1), 1), ((b, 0), 1)]"
      "Key_add (Key3 b 0 1) (Key3 b 1 1) = [((b, 0), 1), ((b, 1), 1)]"
      using True by (simp_all add: addEnd_def Key3_def Key_add_def)
    show ?thesis
      unfolding r(2) k Key_apply_distinguishable_lt [OF True t2]
      using t2 True by (auto simp: Let_def)
  next
    case False
    then have lt: "b < a" using ab by simp
    have k: "addEnd b 1 1 (Key3 a 0 1) = [((b, 1), 1), ((a, 0), 1)]"
      "Key_add (Key3 a 0 1) (Key3 a 1 1) = [((a, 0), 1), ((a, 1), 1)]"
      "Key_add (Key3 a 0 1) (Key3 b 1 1) = [((b, 1), 1), ((a, 0), 1)]"
      "Key_add (Key3 a 1 1) (Key3 b 0 1) = [((b, 0), 1), ((a, 1), 1)]"
      "Key_add (Key3 b 0 1) (Key3 b 1 1) = [((b, 0), 1), ((b, 1), 1)]"
      using lt by (simp_all add: addEnd_def Key3_def Key_add_def)
    show ?thesis
      unfolding r(2) k Key_apply_distinguishable_gt [OF lt t2]
      using t2 lt by (auto simp: Let_def)
  qed
  with s1 s2 r(1) show ?thesis by blast
qed


text \<open>The theorem at the empty state of the simulation, for the modes 0 and 1.\<close>

theorem beam_splitter_distinguishable_witness:
  "(0 :: int) \<noteq> 1
   \<and> terms (State_new\<lparr>get_ovlp := trivOvlF\<rparr>) = []
   \<and> waves (State_new\<lparr>get_ovlp := trivOvlF\<rparr>) = []
   \<and> basis (State_new\<lparr>get_ovlp := trivOvlF\<rparr>) = []
   \<and> trivOvlF [1, 0] [0, 0] = 0 \<and> trivOvlF [0, 0] [1, 0] = 0 \<and> 0 < trivOvlF [1, 0] [1, 0]
   \<and> 0 \<le> tol (State_new\<lparr>get_ovlp := trivOvlF\<rparr>)
   \<and> tol (State_new\<lparr>get_ovlp := trivOvlF\<rparr>) < 1 / 2
   \<and> (\<exists>S1 S2. addPhoton (State_new\<lparr>get_ovlp := trivOvlF\<rparr>) [0, 0] 0 1 = Some S1
         \<and> addPhoton S1 [1, 0] 1 1 = Some S2
         \<and> amp (terms (apply_State S2 [1 / sqrt 2, 1 / sqrt 2, 1 / sqrt 2, - (1 / sqrt 2)] [0, 1]))
              [((0, 0), 1), ((0, 1), 1)] = 1 / 2
         \<and> amp (terms (apply_State S2 [1 / sqrt 2, 1 / sqrt 2, 1 / sqrt 2, - (1 / sqrt 2)] [0, 1]))
              [((0, 0), 1), ((1, 1), 1)] = - (1 / 2)
         \<and> amp (terms (apply_State S2 [1 / sqrt 2, 1 / sqrt 2, 1 / sqrt 2, - (1 / sqrt 2)] [0, 1]))
              [((0, 1), 1), ((1, 0), 1)] = 1 / 2
         \<and> amp (terms (apply_State S2 [1 / sqrt 2, 1 / sqrt 2, 1 / sqrt 2, - (1 / sqrt 2)] [0, 1]))
              [((1, 0), 1), ((1, 1), 1)] = - (1 / 2)
         \<and> amp (terms (apply_State S2 [1 / sqrt 2, 1 / sqrt 2, 1 / sqrt 2, - (1 / sqrt 2)] [0, 1]))
              [((0, 0), 2)] = 0)"
proof -
  let ?S0 = "State_new\<lparr>get_ovlp := trivOvlF\<rparr>"
  let ?U = "[1 / sqrt 2, 1 / sqrt 2, 1 / sqrt 2, - (1 / sqrt 2)] :: real list"
  have ab: "(0 :: int) \<noteq> 1" by simp
  have e: "terms ?S0 = []" "waves ?S0 = []" "basis ?S0 = []" by (simp_all add: State_new_def)
  have o: "get_ovlp ?S0 [1, 0] [0, 0] = 0" "get_ovlp ?S0 [0, 0] [1, 0] = 0"
    by (simp_all add: trivOvlF_def)
  have pos: "0 < get_ovlp ?S0 [1, 0] [1, 0]" by (simp add: trivOvlF_def)
  have t: "0 \<le> tol ?S0" "tol ?S0 < 1 / 2" by (simp_all add: State_new_def)
  have k: "Key_add (Key3 0 0 1) (Key3 0 1 1) = [((0, 0), 1), ((0, 1), 1)]"
      "Key_add (Key3 0 0 1) (Key3 1 1 1) = [((0, 0), 1), ((1, 1), 1)]"
      "Key_add (Key3 0 1 1) (Key3 1 0 1) = [((0, 1), 1), ((1, 0), 1)]"
      "Key_add (Key3 1 0 1) (Key3 1 1 1) = [((1, 0), 1), ((1, 1), 1)]"
    by (simp_all add: Key3_def Key_add_def)
  from beam_splitter_distinguishable [OF ab e o pos t]
  obtain S1 S2 where s: "addPhoton ?S0 [0, 0] 0 1 = Some S1" "addPhoton S1 [1, 0] 1 1 = Some S2"
    and a: "\<And>K. amp (terms (apply_State S2 ?U [0, 1])) K =
          (if K = [((0, 0), 1), ((0, 1), 1)] then 1 / 2
           else if K = [((0, 0), 1), ((1, 1), 1)] then - (1 / 2)
           else if K = [((0, 1), 1), ((1, 0), 1)] then 1 / 2
           else if K = [((1, 0), 1), ((1, 1), 1)] then - (1 / 2)
           else 0)"
    unfolding k by blast
  have "amp (terms (apply_State S2 ?U [0, 1])) [((0, 0), 1), ((0, 1), 1)] = 1 / 2"
    "amp (terms (apply_State S2 ?U [0, 1])) [((0, 0), 1), ((1, 1), 1)] = - (1 / 2)"
    "amp (terms (apply_State S2 ?U [0, 1])) [((0, 1), 1), ((1, 0), 1)] = 1 / 2"
    "amp (terms (apply_State S2 ?U [0, 1])) [((1, 0), 1), ((1, 1), 1)] = - (1 / 2)"
    "amp (terms (apply_State S2 ?U [0, 1])) [((0, 0), 2)] = 0"
    by (simp_all add: a)
  with s ab e o pos t show ?thesis by (simp add: trivOvlF_def)
qed

text \<open>
  Claim C7 as stated fails: for the wave functions \<open>[0, 0]\<close> and \<open>[1, 0]\<close>, which have
  overlap zero under \<open>trivOvlF\<close>, the key with one photon at each of the modes 0 and 1
  keeps the amplitude \<open>-1/2\<close>, and the amplitudes of the keys with both photons at
  mode 0 and both photons at mode 1 are \<open>1/2\<close> and \<open>-1/2\<close>, which are not equal.
\<close>

theorem beam_splitter_no_bunching:
  "\<exists>S1 S2. addPhoton (State_new\<lparr>get_ovlp := trivOvlF\<rparr>) [0, 0] 0 1 = Some S1
     \<and> addPhoton S1 [1, 0] 1 1 = Some S2
     \<and> amp (terms (apply_State S2 [1 / sqrt 2, 1 / sqrt 2, 1 / sqrt 2, - (1 / sqrt 2)] [0, 1]))
          [((0, 0), 1), ((1, 1), 1)] \<noteq> 0
     \<and> amp (terms (apply_State S2 [1 / sqrt 2, 1 / sqrt 2, 1 / sqrt 2, - (1 / sqrt 2)] [0, 1]))
          [((0, 0), 1), ((0, 1), 1)]
       \<noteq> amp (terms (apply_State S2 [1 / sqrt 2, 1 / sqrt 2, 1 / sqrt 2, - (1 / sqrt 2)] [0, 1]))
          [((1, 0), 1), ((1, 1), 1)]"
proof -
  let ?S0 = "State_new\<lparr>get_ovlp := trivOvlF\<rparr>"
  let ?U = "[1 / sqrt 2, 1 / sqrt 2, 1 / sqrt 2, - (1 / sqrt 2)] :: real list"
  have ab: "(0 :: int) \<noteq> 1" by simp
  have lt: "(0 :: int) < 1" by simp
  have e: "terms ?S0 = []" "waves ?S0 = []" "basis ?S0 = []" by (simp_all add: State_new_def)
  have o: "get_ovlp ?S0 [1, 0] [0, 0] = 0" "get_ovlp ?S0 [0, 0] [1, 0] = 0"
    by (simp_all add: trivOvlF_def)
  have pos: "0 < get_ovlp ?S0 [1, 0] [1, 0]" by (simp add: trivOvlF_def)
  from two_photons_terms [OF ab e o pos] obtain S1 S2 where
    s: "addPhoton ?S0 [0, 0] 0 1 = Some S1" "addPhoton S1 [1, 0] 1 1 = Some S2"
    and tl: "tol S2 = tol ?S0"
    and tm: "terms S2 = [(addEnd 1 0 1 (Key3 0 0 1), 0), (addEnd 1 1 1 (Key3 0 0 1), 1)]"
    by blast
  have t2: "0 \<le> tol S2" "tol S2 < 1 / 2" by (simp_all add: tl State_new_def)
  have k: "addEnd 1 1 1 (Key3 0 0 1) = [((0, 0), 1), ((1, 1), 1)]"
    by (simp add: addEnd_def Key3_def)
  note r = apply_State_two_terms(2) [OF tm t2(1), of ?U "[0, 1]"]
  have "amp (terms (apply_State S2 ?U [0, 1])) [((0, 0), 1), ((1, 1), 1)] = - (1 / 2)"
    "amp (terms (apply_State S2 ?U [0, 1])) [((0, 0), 1), ((0, 1), 1)] = 1 / 2"
    "amp (terms (apply_State S2 ?U [0, 1])) [((1, 0), 1), ((1, 1), 1)] = - (1 / 2)"
    unfolding r k Key_apply_distinguishable_lt [OF lt t2]
    using t2 by (simp_all add: Let_def)
  with s show ?thesis by simp
qed

section \<open>Occupation numbers stay positive\<close>

subsection \<open>Writing into a key and into a map\<close>

lemma fold_list_all:
  assumes "list_all Q xs" and "P acc" and "\<And>x s. Q x \<Longrightarrow> P s \<Longrightarrow> P (f x s)"
  shows "P (fold f xs acc)"
  using assms by (induction xs arbitrary: acc) auto

lemma keys_all_iff: "list_all (\<lambda>t. P (fst t)) R \<longleftrightarrow> (\<forall>K \<in> fst ` set R. P K)"
  by (auto simp: list_all_iff)

lemma emplace_keys_all:
  "list_all (\<lambda>t. P (fst t)) R \<Longrightarrow> P K \<Longrightarrow> list_all (\<lambda>t. P (fst t)) (emplace K v R)"
  by (simp add: keys_all_iff emplace_keys)

lemma insert_or_assign_keys_all:
  "list_all (\<lambda>t. P (fst t)) R \<Longrightarrow> P K \<Longrightarrow> list_all (\<lambda>t. P (fst t)) (insert_or_assign K v R)"
  by (simp add: keys_all_iff insert_or_assign_keys)

lemma emplace_add_keys_all:
  "list_all (\<lambda>t. P (fst t)) R \<Longrightarrow> P K \<Longrightarrow> list_all (\<lambda>t. P (fst t)) (emplace_add K v R)"
  by (simp add: keys_all_iff emplace_add_keys)

lemma emplace_vals_all:
  "list_all (\<lambda>e. Q (snd e)) K \<Longrightarrow> Q n \<Longrightarrow> list_all (\<lambda>e. Q (snd e)) (emplace k n K)"
  by (induction K) auto

lemma insert_or_assign_vals_all:
  "list_all (\<lambda>e. Q (snd e)) K \<Longrightarrow> Q n \<Longrightarrow> list_all (\<lambda>e. Q (snd e)) (insert_or_assign k n K)"
  by (induction K) auto

lemma emplace_add_pos:
  "list_all (\<lambda>e. 0 < snd e) K \<Longrightarrow> 0 < (n :: int) \<Longrightarrow>
   list_all (\<lambda>e. 0 < snd e) (emplace_add k n K)"
  by (induction K) auto

lemma State_add_keys_all:
  assumes "list_all (\<lambda>t. P (fst t)) p" and "list_all (\<lambda>t. P (fst t)) acc"
  shows "list_all (\<lambda>t. P (fst t)) (State_add p v acc)"
  unfolding State_add_def
  by (rule fold_list_all [where Q = "\<lambda>t. P (fst t)" and P = "list_all (\<lambda>t. P (fst t))"])
    (use assms in \<open>auto simp: emplace_add_keys_all\<close>)

lemma fold_cond_emplace_keys_all:
  assumes "list_all (\<lambda>t. P (fst t)) xs" and "list_all (\<lambda>t. P (fst t)) acc"
  shows "list_all (\<lambda>t. P (fst t))
           (fold (\<lambda>(K, v) par. if C K v then emplace K (g K v) par else par) xs acc)"
  by (rule fold_list_all [where Q = "\<lambda>t. P (fst t)" and P = "list_all (\<lambda>t. P (fst t))"])
    (use assms in \<open>auto simp: emplace_keys_all\<close>)

subsection \<open>The operators that keep or drop terms\<close>

lemma clean_keys_all:
  "list_all (\<lambda>t. P (fst t)) (terms S) \<Longrightarrow> list_all (\<lambda>t. P (fst t)) (terms (clean S))"
  using fold_cond_emplace_keys_all [of P "terms S" "[]" "\<lambda>K v. \<bar>v\<bar> > tol S" "\<lambda>K v. v"]
  by (simp add: clean_def)

lemma mul_keys_all:
  "list_all (\<lambda>t. P (fst t)) (terms S) \<Longrightarrow> list_all (\<lambda>t. P (fst t)) (terms (mul S n))"
  using fold_cond_emplace_keys_all [of P "terms S" "[]" "\<lambda>K v. \<bar>v * n\<bar> > tol S" "\<lambda>K v. v * n"]
  by (simp add: mul_def)

lemma overlapCompl_keys_all:
  "list_all (\<lambda>t. P (fst t)) (terms S) \<Longrightarrow>
   list_all (\<lambda>t. P (fst t)) (terms (overlapCompl S MVec allModes))"
  using fold_cond_emplace_keys_all [of P "terms S" "[]"
      "\<lambda>K v. \<not> list_ex (\<lambda>ref. overlapping K ref) MVec \<or> \<not> notEmpty K allModes" "\<lambda>K v. v"]
  by (simp add: overlapCompl_def)

lemma normalise_fold_keys_all:
  assumes "list_all (\<lambda>t. P (fst t)) xs" and "list_all (\<lambda>t. P (fst t)) acc"
    and "fold (normalise_step n t) xs (Some acc) = Some par"
  shows "list_all (\<lambda>t. P (fst t)) par"
proof -
  have "case fold (normalise_step n t) xs (Some acc) of None \<Rightarrow> True
        | Some r \<Rightarrow> list_all (\<lambda>t. P (fst t)) r"
    by (rule fold_list_all [where Q = "\<lambda>t. P (fst t)"])
      (use assms(1, 2) in \<open>auto simp: normalise_step_def emplace_keys_all split: option.splits\<close>)
  then show ?thesis by (simp add: assms(3))
qed

lemma normalise_keys_all:
  assumes "list_all (\<lambda>t. P (fst t)) (terms S)" and "normalise S = Some S'"
  shows "list_all (\<lambda>t. P (fst t)) (terms S')"
proof -
  from assms(2) obtain par where
    f: "fold (normalise_step (if norm_State S = 0 then 1 else norm_State S) (tol S)) (terms S) (Some [])
          = Some par" and s: "S' = S\<lparr>terms := par\<rparr>"
    by (auto simp: normalise_def Let_def)
  have "list_all (\<lambda>t. P (fst t)) par"
    by (rule normalise_fold_keys_all [OF assms(1) _ f]) simp
  then show ?thesis by (simp add: s)
qed

lemma notEmpty_State_keys_all:
  assumes "list_all (\<lambda>t. P (fst t)) (terms S)" and "notEmpty_State S allModes = Some S'"
  shows "list_all (\<lambda>t. P (fst t)) (terms S')"
proof -
  let ?T = "S\<lparr>terms := fold (\<lambda>(K, v) p. if notEmpty K allModes then emplace K v p else p)
                             (terms S) []\<rparr>"
  have "list_all (\<lambda>t. P (fst t)) (terms ?T)"
    using fold_cond_emplace_keys_all [of P "terms S" "[]"
        "\<lambda>K v. notEmpty K allModes" "\<lambda>K v. v"] assms(1)
    by simp
  moreover have "normalise ?T = Some S'" using assms(2) by (simp add: notEmpty_State_def)
  ultimately show ?thesis by (rule normalise_keys_all)
qed

lemma overlapWithFilter_keys_all:
  assumes "list_all (\<lambda>t. P (fst t)) (terms S)"
  shows "list_all (\<lambda>t. P (fst t)) (terms (fst (overlapWithFilter S ref allModes fref)))"
    and "list_all (\<lambda>t. P (fst t)) (terms (snd (overlapWithFilter S ref allModes fref)))"
proof -
  let ?r = "fold (overlapWithFilter_step ref allModes fref) (terms S) ([], [])"
  have "list_all (\<lambda>t. P (fst t)) (fst ?r) \<and> list_all (\<lambda>t. P (fst t)) (snd ?r)"
    by (rule fold_list_all [where Q = "\<lambda>t. P (fst t)"])
      (use assms in \<open>auto simp: overlapWithFilter_step_def emplace_keys_all\<close>)
  then show "list_all (\<lambda>t. P (fst t)) (terms (fst (overlapWithFilter S ref allModes fref)))"
    and "list_all (\<lambda>t. P (fst t)) (terms (snd (overlapWithFilter S ref allModes fref)))"
    by (simp_all add: overlapWithFilter_def case_prod_unfold Let_def)
qed

lemma apply1_State_keys_all:
  "list_all (\<lambda>t. P (fst t)) (terms S) \<Longrightarrow>
   list_all (\<lambda>t. P (fst t)) (terms (apply1_State S u mode))"
  by (auto simp: apply1_State_def list_all_iff)


subsection \<open>The operators that build new keys\<close>

lemma positive_counts_iff:
  "positive_counts R \<longleftrightarrow> list_all (\<lambda>t. list_all (\<lambda>e. 0 < snd e) (fst t)) R"
  by (simp add: positive_counts_def)

lemma Key_swap_pos:
  assumes "list_all (\<lambda>e. 0 < snd e) K"
  shows "list_all (\<lambda>e. 0 < snd e) (Key_swap K a b)"
  unfolding Key_swap_def
  by (rule fold_list_all [where Q = "\<lambda>e. 0 < snd e"])
    (use assms in \<open>auto simp: emplace_vals_all\<close>)

lemma swap_State_pos:
  assumes "positive_counts (terms S)"
  shows "positive_counts (terms (swap_State S a b))"
proof -
  have "list_all (\<lambda>t. list_all (\<lambda>e. 0 < snd e) (fst t))
          (fold (\<lambda>(K, v) par. emplace (Key_swap K a b) v par) (terms S) [])"
    by (rule fold_list_all [where Q = "\<lambda>t. list_all (\<lambda>e. 0 < snd e) (fst t)"])
      (use assms in \<open>auto simp: positive_counts_def emplace_keys_all Key_swap_pos\<close>)
  then show ?thesis by (simp add: swap_State_def positive_counts_def)
qed

lemma Key_collapse_pos:
  assumes "list_all (\<lambda>e. 0 < snd e) K" and "Key_collapse K f v = Some (K', v')"
  shows "list_all (\<lambda>e. 0 < snd e) K'"
proof -
  have "case fold (collapse_step f) K (Some []) of None \<Rightarrow> True
        | Some p \<Rightarrow> list_all (\<lambda>e. 0 < snd e) p"
    by (rule fold_list_all [where Q = "\<lambda>e. 0 < snd e"])
      (use assms(1) in \<open>auto simp: collapse_step_def emplace_add_pos split: option.splits\<close>)
  then show ?thesis using assms(2) by (auto simp: Key_collapse_def split: option.splits)
qed

lemma collapse_pos:
  assumes "positive_counts (terms S)" and "collapse S K = Some S'"
  shows "positive_counts (terms S')"
proof -
  from assms(2) obtain p where
    f: "fold (collapse_term (collapse_map K)) (terms S) (Some []) = Some p"
    and s: "S' = S\<lparr>terms := p\<rparr>"
    by (auto simp: collapse_def)
  have "case fold (collapse_term (collapse_map K)) (terms S) (Some []) of None \<Rightarrow> True
        | Some p \<Rightarrow> positive_counts p"
  proof (rule fold_list_all [where Q = "\<lambda>t. list_all (\<lambda>e. 0 < snd e) (fst t)"])
    show "list_all (\<lambda>t. list_all (\<lambda>e. 0 < snd e) (fst t)) (terms S)"
      using assms(1) by (simp add: positive_counts_def)
    show "case Some [] of None \<Rightarrow> True | Some p \<Rightarrow> positive_counts p"
      by (simp add: positive_counts_def)
  next
    fix x :: "Key \<times> real" and acc
    assume x: "list_all (\<lambda>e. 0 < snd e) (fst x)"
      and acc: "case acc of None \<Rightarrow> True | Some p \<Rightarrow> positive_counts p"
    obtain K2 v where xv: "x = (K2, v)" by (cases x)
    show "case collapse_term (collapse_map K) x acc of None \<Rightarrow> True
          | Some p \<Rightarrow> positive_counts p"
      using x acc Key_collapse_pos [of K2 "collapse_map K" v]
      by (auto simp: xv collapse_term_def positive_counts_def emplace_add_keys_all
          split: option.splits)
  qed
  then show ?thesis by (simp add: f s)
qed

lemma sameDModeDel_loop_pos:
  "sameDModeDel_loop m es dm f p = Some (f', p') \<Longrightarrow>
   list_all (\<lambda>e. 0 < snd e) es \<Longrightarrow> list_all (\<lambda>e. 0 < snd e) p \<Longrightarrow>
   list_all (\<lambda>e. 0 < snd e) p'"
proof (induction m es dm f p rule: sameDModeDel_loop.induct)
  case (1 m dmode founds p)
  then show ?case by simp
next
  case (2 m s d n es dmode founds p)
  then show ?case by (auto simp: emplace_vals_all split: if_splits)
qed

lemma sameDModeDel_pos:
  assumes "list_all (\<lambda>e. 0 < snd e) K" and "sameDModeDel K m = (True, K')"
  shows "list_all (\<lambda>e. 0 < snd e) K'"
  using assms sameDModeDel_loop_pos [of m K "- 1" 0 "[]"]
  by (auto simp: sameDModeDel_def split: option.splits)

lemma sameDModeDel_try_pos:
  "sameDModeDel_try K ms i = Some (K', j) \<Longrightarrow> list_all (\<lambda>e. 0 < snd e) K \<Longrightarrow>
   list_all (\<lambda>e. 0 < snd e) K'"
proof (induction ms arbitrary: i)
  case Nil
  then show ?case by simp
next
  case (Cons m ms)
  obtain ok K2 where r: "sameDModeDel K m = (ok, K2)" by (cases "sameDModeDel K m")
  show ?case
  proof (cases ok)
    case True
    then have "K' = K2" using Cons.prems(1) r by simp
    then show ?thesis using sameDModeDel_pos [OF Cons.prems(2)] r True by simp
  next
    case False
    then have "sameDModeDel_try K ms (Suc i) = Some (K', j)" using Cons.prems(1) r by simp
    then show ?thesis using Cons.prems(2) by (rule Cons.IH)
  qed
qed

lemma sameDModeDel_State_pos:
  assumes "positive_counts (terms S)"
  shows "positive_counts (terms (sameDModeDel_State S modes facs))"
proof -
  have "list_all (\<lambda>t. list_all (\<lambda>e. 0 < snd e) (fst t))
          (fold (\<lambda>(K, v) p. case sameDModeDel_try K modes 0 of None \<Rightarrow> p
                   | Some (K', i) \<Rightarrow> emplace_add K' (v * facs ! i) p) (terms S) [])"
    by (rule fold_list_all [where Q = "\<lambda>t. list_all (\<lambda>e. 0 < snd e) (fst t)"])
      (use assms in \<open>auto simp: positive_counts_def emplace_add_keys_all sameDModeDel_try_pos
          split: option.splits\<close>)
  then show ?thesis by (simp add: sameDModeDel_State_def positive_counts_def)
qed


subsection \<open>Adding a photon\<close>

lemma addPhoton_terms:
  assumes "addPhoton S0 wfn mode num = Some S'"
  shows "terms S' = insert_or_assign (Key3 mode 0 num) 1 []
       \<or> (\<exists>index. terms S' =
             fold (\<lambda>(K, v) SNew. emplace (incr mode (int index) num K) v SNew) (terms S0) [])
       \<or> (\<exists>decomp. terms S' =
             fold (\<lambda>(K, v) SNew.
                     fold (\<lambda>i SN. emplace (addEnd mode (int i) num K) (v * decomp ! i) SN)
                          [0..<length decomp] SNew)
                  (terms S0) [])"
proof -
  define S where "S = (if mode \<ge> lossMode S0 then S0\<lparr>lossMode := mode + 1\<rparr> else S0)"
  have tS: "terms S = terms S0" by (simp add: S_def)
  note ap = assms [unfolded addPhoton_def Let_def, folded S_def]
  show ?thesis
  proof (cases "length (terms S) = 0")
    case True
    then show ?thesis using ap by (auto simp: tS)
  next
    case ne: False
    show ?thesis
    proof (cases "find_wave (get_ovlp S) wfn (waves S) 0")
      case (Some index)
      then have "terms S' =
          fold (\<lambda>(K, v) SNew. emplace (incr mode (int index) num K) v SNew) (terms S0) []"
        using ap ne by (auto simp: tS)
      then show ?thesis by blast
    next
      case None
      then obtain T decomp where "addBasisElem S wfn = Some (T, decomp)"
        and "S' = T\<lparr>terms :=
                       fold (\<lambda>(K, v) SNew.
                               fold (\<lambda>i SN. emplace (addEnd mode (int i) num K)
                                                      (v * decomp ! i) SN)
                                    [0..<length decomp] SNew)
                            (terms S) []\<rparr>"
        using ap ne by (auto split: option.splits)
      then have "terms S' =
             fold (\<lambda>(K, v) SNew.
                     fold (\<lambda>i SN. emplace (addEnd mode (int i) num K) (v * decomp ! i) SN)
                          [0..<length decomp] SNew)
                  (terms S0) []"
        by (simp add: tS)
      then show ?thesis by blast
    qed
  qed
qed

lemma addPhoton_pos:
  assumes p: "positive_counts (terms S0)" and n: "0 < num"
    and a: "addPhoton S0 wfn mode num = Some S'"
  shows "positive_counts (terms S')"
proof -
  let ?P = "list_all (\<lambda>t. list_all (\<lambda>e. 0 < snd e) (fst t))"
  have q: "?P (terms S0)" using p by (simp add: positive_counts_def)
  have c1: "?P (insert_or_assign (Key3 mode 0 num) (1 :: real) [])"
    using n by (simp add: Key3_def)
  have c2: "?P (fold (\<lambda>(K, v) SNew. emplace (incr mode (int index) num K) v SNew) (terms S0) [])"
    for index
    by (rule fold_list_all [where Q = "\<lambda>t. list_all (\<lambda>e. 0 < snd e) (fst t)"])
      (use q n in \<open>auto simp: emplace_keys_all incr_def emplace_add_pos\<close>)
  have c3: "?P (fold (\<lambda>(K, v) SNew.
                     fold (\<lambda>i SN. emplace (addEnd mode (int i) num K) (v * decomp ! i) SN)
                          [0..<length decomp] SNew)
                  (terms S0) [])" for decomp :: "real list"
  proof (rule fold_list_all [where Q = "\<lambda>t. list_all (\<lambda>e. 0 < snd e) (fst t)"])
    show "?P (terms S0)" by (rule q)
    show "?P []" by simp
  next
    fix x :: "Key \<times> real" and s :: SD
    assume x: "list_all (\<lambda>e. 0 < snd e) (fst x)" and s: "?P s"
    obtain K v where xv: "x = (K, v)" by (cases x)
    have "?P (fold (\<lambda>i SN. emplace (addEnd mode (int i) num K) (v * decomp ! i) SN)
                [0..<length decomp] s)"
      by (rule fold_list_all [where Q = "\<lambda>i. True"])
        (use x s n in \<open>auto simp: xv list_all_iff [of "\<lambda>i. True"] emplace_keys_all addEnd_def
            insert_or_assign_vals_all\<close>)
    then show "?P ((case x of (K, v) \<Rightarrow> \<lambda>SNew.
                     fold (\<lambda>i SN. emplace (addEnd mode (int i) num K) (v * decomp ! i) SN)
                          [0..<length decomp] SNew) s)"
      by (simp add: xv)
  qed
  from addPhoton_terms [OF a] consider
    (first) "terms S' = insert_or_assign (Key3 mode 0 num) 1 []"
    | (found) index where "terms S' =
         fold (\<lambda>(K, v) SNew. emplace (incr mode (int index) num K) v SNew) (terms S0) []"
    | (new) decomp where "terms S' =
         fold (\<lambda>(K, v) SNew.
                 fold (\<lambda>i SN. emplace (addEnd mode (int i) num K) (v * decomp ! i) SN)
                      [0..<length decomp] SNew)
              (terms S0) []"
    by blast
  then show ?thesis
  proof cases
    case first
    show ?thesis unfolding positive_counts_def first by (rule c1)
  next
    case found
    show ?thesis unfolding positive_counts_def found by (rule c2)
  next
    case new
    show ?thesis unfolding positive_counts_def new by (rule c3)
  qed
qed

subsection \<open>The two-mode unitary\<close>

lemma Key_clean_pos: "list_all (\<lambda>e. 0 < snd e) (Key_clean K)"
  unfolding Key_clean_def
  by (rule fold_list_all [where Q = "\<lambda>e. True"])
    (auto simp: list_all_iff [of "\<lambda>e. True"] insert_or_assign_vals_all)

lemma Key_add_pos:
  assumes "list_all (\<lambda>e. 0 < snd e) K" and "list_all (\<lambda>e. 0 < snd e) p"
  shows "list_all (\<lambda>e. 0 < snd e) (Key_add K p)"
  unfolding Key_add_def
  by (rule fold_list_all [where Q = "\<lambda>e. 0 < snd e"])
    (use assms in \<open>auto simp: emplace_add_pos\<close>)

lemma apply_branches_pos:
  "list_all (\<lambda>t. list_all (\<lambda>e. 0 < snd e) (fst t)) (apply_branches U modes i d n)"
  unfolding keys_all_iff apply_branches_def
  by (simp add: fold_insert_or_assign_keys Key_clean_pos)

lemma apply_entry_pos:
  assumes "0 < snd e" and "list_all (\<lambda>t. list_all (\<lambda>e. 0 < snd e) (fst t)) Ret"
  shows "list_all (\<lambda>t. list_all (\<lambda>e. 0 < snd e) (fst t)) (apply_entry U modes e Ret)"
proof -
  obtain m d n where e: "e = ((m, d), n)" by (cases e) auto
  have n: "0 < n" using assms(1) by (simp add: e)
  have R: "\<forall>K \<in> fst ` set Ret. list_all (\<lambda>e. 0 < snd e) K"
    using assms(2) by (simp add: keys_all_iff)
  have pass: "list_all (\<lambda>t. list_all (\<lambda>e. 0 < snd e) (fst t)) (apply_pass m d n Ret)"
    unfolding keys_all_iff apply_pass_keys using R n
    by (auto simp: insert_or_assign_vals_all)
  have B: "\<forall>K \<in> fst ` set (apply_branches U modes i d n). list_all (\<lambda>e. 0 < snd e) K" for i
    using apply_branches_pos [of U modes i d n] by (simp add: keys_all_iff)
  have conv: "list_all (\<lambda>t. list_all (\<lambda>e. 0 < snd e) (fst t))
                (apply_conv (apply_branches U modes i d n) Ret)" for i
    unfolding keys_all_iff apply_conv_keys using R B [of i]
    by (auto simp: Key_add_pos)
  show ?thesis using pass conv by (simp add: e apply_entry_def)
qed

lemma Key_apply_pos:
  assumes "list_all (\<lambda>e. 0 < snd e) K"
  shows "list_all (\<lambda>t. list_all (\<lambda>e. 0 < snd e) (fst t)) (Key_apply K U modes t)"
proof -
  let ?P = "list_all (\<lambda>t. list_all (\<lambda>e. 0 < snd e) (fst t))"
  have r: "?P (fold (apply_entry U modes) K [([], 1)])"
    by (rule fold_list_all [where Q = "\<lambda>e. 0 < snd e"])
      (use assms in \<open>auto simp: apply_entry_pos\<close>)
  show ?thesis
    unfolding Key_apply_def apply_finish_def
    by (rule fold_list_all [where Q = "\<lambda>t. list_all (\<lambda>e. 0 < snd e) (fst t)"])
      (use r in \<open>auto simp: insert_or_assign_keys_all\<close>)
qed

lemma apply_State_pos:
  assumes "positive_counts (terms S)"
  shows "positive_counts (terms (apply_State S U modes))"
proof -
  let ?P = "list_all (\<lambda>t. list_all (\<lambda>e. 0 < snd e) (fst t))"
  let ?T = "S\<lparr>terms := fold (\<lambda>(K, v) acc. State_add (Key_apply K U modes (tol S)) v acc)
                             (terms S) []\<rparr>"
  have "?P (fold (\<lambda>(K, v) acc. State_add (Key_apply K U modes (tol S)) v acc) (terms S) [])"
    by (rule fold_list_all [where Q = "\<lambda>t. list_all (\<lambda>e. 0 < snd e) (fst t)"])
      (use assms in \<open>auto simp: positive_counts_def State_add_keys_all Key_apply_pos\<close>)
  then have "?P (terms ?T)" by simp
  then have "?P (terms (clean ?T))" by (rule clean_keys_all)
  then show ?thesis by (simp add: apply_State_def positive_counts_def)
qed


subsection \<open>Loss\<close>

lemma loss_step_nonneg:
  assumes k: "list_all (\<lambda>e. 0 \<le> snd e) k" and i: "i < length k"
    and R: "list_all (\<lambda>t. list_all (\<lambda>e. 0 \<le> snd e) (fst t)) (fst acc)"
  shows "list_all (\<lambda>t. list_all (\<lambda>e. 0 \<le> snd e) (fst t)) (fst (loss_step modes lM k i acc))"
proof -
  obtain R0 tot mx where acc: "acc = (R0, tot, mx)" by (cases acc) auto
  obtain m d n where e: "k ! i = ((m, d), n)" by (cases "k ! i") auto
  have upd: "list_all (\<lambda>e. 0 \<le> snd e) (k[i := ((m, d), n - 1)])" if "0 < n"
    using k that by (auto simp: list_all_iff dest!: set_update_subset_insert [THEN subsetD])
  show ?thesis
    using R upd
    by (auto simp: acc e loss_step_def Let_def insert_or_assign_keys_all
        insert_or_assign_vals_all)
qed

lemma Key_loss_nonneg:
  assumes k: "list_all (\<lambda>e. 0 \<le> snd e) k"
  shows "list_all (\<lambda>t. list_all (\<lambda>e. 0 \<le> snd e) (fst t)) (fst (Key_loss k modes lM mx))"
proof -
  let ?P = "list_all (\<lambda>t. list_all (\<lambda>e. 0 \<le> snd e) (fst t))"
  let ?r = "fold (loss_step modes lM k) [0..<length k] ([], 0, mx)"
  have r: "?P (fst ?r)"
    by (rule fold_list_all [where Q = "\<lambda>i. i < length k" and P = "\<lambda>acc. ?P (fst acc)"])
      (use k in \<open>auto simp: list_all_iff [of "\<lambda>i. i < length k"] loss_step_nonneg\<close>)
  obtain R tot mx' where f: "?r = (R, tot, mx')" by (cases ?r) auto
  have R: "?P R" using r by (simp add: f)
  have "?P (insert_or_assign k 1 R)" using R k by (simp add: insert_or_assign_keys_all)
  moreover have "?P (map (\<lambda>(k', v). (k', v / sqrt (real_of_int tot))) R)"
    using R by (fastforce simp: list_all_iff)
  ultimately show ?thesis by (simp add: Key_loss_def f)
qed

lemma loss_nonneg:
  assumes "nonneg_counts (terms S)"
  shows "nonneg_counts (terms (loss S modes))"
proof -
  let ?P = "list_all (\<lambda>t. list_all (\<lambda>e. 0 \<le> snd e) (fst t))"
  let ?r = "fold (loss_term modes (lossMode S)) (terms S) ([], 0)"
  have step: "?P (fst (loss_term modes lm x acc))"
    if "list_all (\<lambda>e. 0 \<le> snd e) (fst x)" and "?P (fst acc)" for lm x acc
  proof -
    obtain K v where x: "x = (K, v)" by (cases x)
    obtain a mx where acc: "acc = (a, mx)" by (cases acc)
    obtain R mx' where kl: "Key_loss K modes lm mx = (R, mx')"
      by (cases "Key_loss K modes lm mx")
    have "?P R" using Key_loss_nonneg [of K modes lm mx] that(1) by (simp add: x kl)
    then have "?P (State_add R v a)" using that(2) by (simp add: State_add_keys_all acc)
    then show ?thesis by (simp add: x acc loss_term_def kl)
  qed
  have r: "?P (fst ?r)"
    by (rule fold_list_all [where Q = "\<lambda>t. list_all (\<lambda>e. 0 \<le> snd e) (fst t)"
          and P = "\<lambda>acc. ?P (fst acc)"])
      (use assms in \<open>auto simp: nonneg_counts_def step\<close>)
  obtain acc mx where f: "?r = (acc, mx)" by (cases ?r)
  let ?T = "S\<lparr>terms := acc, lossMode := (if mx > lossMode S then mx else lossMode S)\<rparr>"
  have "?P (terms ?T)" using r by (simp add: f)
  then have "?P (terms (clean ?T))" by (rule clean_keys_all)
  then show ?thesis by (simp add: loss_def f nonneg_counts_def)
qed

lemma positive_nonneg: "positive_counts R \<Longrightarrow> nonneg_counts R"
  by (auto simp: positive_counts_def nonneg_counts_def list_all_iff less_imp_le)

text \<open>
  Claim C5, as amended.  Let every occupation number of every key of a state be
  positive.  Then the same holds for the state after \<open>addPhoton\<close> with a positive number
  of photons (when the call returns), after the two-mode unitary, the phase on one mode
  and \<open>swap\<close>, after \<open>collapse\<close>, for both states of \<open>overlapWithFilter\<close>, after
  \<open>overlapCompl\<close>, \<open>notEmpty\<close> and \<open>sameDModeDel\<close>, and after \<open>normalise\<close>, \<open>mul\<close>
  and \<open>clean\<close>.  After \<open>loss\<close> every occupation number is at least zero.
\<close>

theorem positive_counts_preserved:
  assumes p: "positive_counts (terms S)"
  shows "(0 < num \<and> addPhoton S wfn mode num = Some S1 \<longrightarrow> positive_counts (terms S1))
     \<and> positive_counts (terms (apply_State S U modes))
     \<and> positive_counts (terms (apply1_State S u mode1))
     \<and> positive_counts (terms (swap_State S a b))
     \<and> (collapse S K = Some S2 \<longrightarrow> positive_counts (terms S2))
     \<and> positive_counts (terms (fst (overlapWithFilter S ref allModes fref)))
     \<and> positive_counts (terms (snd (overlapWithFilter S ref allModes fref)))
     \<and> positive_counts (terms (overlapCompl S MVec allModes))
     \<and> (notEmpty_State S allModes = Some S3 \<longrightarrow> positive_counts (terms S3))
     \<and> positive_counts (terms (sameDModeDel_State S groups facs))
     \<and> (normalise S = Some S4 \<longrightarrow> positive_counts (terms S4))
     \<and> positive_counts (terms (mul S x))
     \<and> positive_counts (terms (clean S))
     \<and> nonneg_counts (terms (loss S lmodes))"
proof -
  note q = p [unfolded positive_counts_def]
  have "0 < num \<and> addPhoton S wfn mode num = Some S1 \<longrightarrow> positive_counts (terms S1)"
    using addPhoton_pos [OF p] by blast
  moreover have "positive_counts (terms (apply_State S U modes))"
    using p by (rule apply_State_pos)
  moreover have "positive_counts (terms (apply1_State S u mode1))"
    unfolding positive_counts_def using q by (rule apply1_State_keys_all)
  moreover have "positive_counts (terms (swap_State S a b))"
    using p by (rule swap_State_pos)
  moreover have "collapse S K = Some S2 \<longrightarrow> positive_counts (terms S2)"
    using collapse_pos [OF p] by blast
  moreover have "positive_counts (terms (fst (overlapWithFilter S ref allModes fref)))"
    unfolding positive_counts_def using q by (rule overlapWithFilter_keys_all)
  moreover have "positive_counts (terms (snd (overlapWithFilter S ref allModes fref)))"
    unfolding positive_counts_def using q by (rule overlapWithFilter_keys_all)
  moreover have "positive_counts (terms (overlapCompl S MVec allModes))"
    unfolding positive_counts_def using q by (rule overlapCompl_keys_all)
  moreover have "notEmpty_State S allModes = Some S3 \<longrightarrow> positive_counts (terms S3)"
    unfolding positive_counts_def using notEmpty_State_keys_all [OF q] by blast
  moreover have "positive_counts (terms (sameDModeDel_State S groups facs))"
    using p by (rule sameDModeDel_State_pos)
  moreover have "normalise S = Some S4 \<longrightarrow> positive_counts (terms S4)"
    unfolding positive_counts_def using normalise_keys_all [OF q] by blast
  moreover have "positive_counts (terms (mul S x))"
    unfolding positive_counts_def using q by (rule mul_keys_all)
  moreover have "positive_counts (terms (clean S))"
    unfolding positive_counts_def using q by (rule clean_keys_all)
  moreover have "nonneg_counts (terms (loss S lmodes))"
    using positive_nonneg [OF p] by (rule loss_nonneg)
  ultimately show ?thesis by (intro conjI)
qed


text \<open>
  The theorem at the state that holds one photon at mode 0, with the operations that may
  fail returning a state.
\<close>

theorem positive_counts_preserved_witness:
  "(let S = \<lparr>terms = [([((0, 0), 1)], 1)], waves = [[0, 0]], basis = [[1]],
              get_ovlp = trivOvlF, tol = 1 / 10 ^ 9, lossMode = 12\<rparr>
    in positive_counts (terms S)
     \<and> addPhoton S [0, 0] 1 1 = Some (S\<lparr>terms := [([((0, 0), 1), ((1, 0), 1)], 1)]\<rparr>)
     \<and> positive_counts [([((0, 0), 1), ((1, 0), 1)], 1)]
     \<and> collapse S [((0, 0), 1)] = Some S
     \<and> notEmpty_State S [[0]] = Some S
     \<and> normalise S = Some S
     \<and> positive_counts (terms (apply_State S [1 / sqrt 2, 1 / sqrt 2, 1 / sqrt 2, - (1 / sqrt 2)] [0, 1]))
     \<and> positive_counts (terms (swap_State S 0 1))
     \<and> positive_counts (terms (sameDModeDel_State S [[1]] [1]))
     \<and> nonneg_counts (terms (loss S [0])))"
proof -
  let ?S = "\<lparr>terms = [([((0, 0), 1)], 1)], waves = [[0, 0]], basis = [[1]],
              get_ovlp = trivOvlF, tol = 1 / 10 ^ 9, lossMode = 12 :: int\<rparr>"
  let ?S1 = "?S\<lparr>terms := [([((0, 0), 1), ((1, 0), 1)], 1)]\<rparr>"
  have p: "positive_counts (terms ?S)" by (simp add: positive_counts_def)
  have a: "addPhoton ?S [0, 0] 1 1 = Some ?S1"
    by (simp add: addPhoton_def trivOvlF_def incr_def)
  have f: "factor [((0, 0), 1)] = 1" by (simp add: factor_def facut_1)
  have c: "collapse ?S [((0, 0), 1)] = Some ?S"
    by (simp add: collapse_def collapse_map_def collapse_term_def Key_collapse_def
        collapse_step_def f)
  have n: "normalise ?S = Some ?S"
    by (simp add: normalise_def norm_State_def normalise_step_def fdiv_def)
  have e: "notEmpty_State ?S [[0]] = Some ?S"
    using n by (simp add: notEmpty_State_def notEmpty_def)
  note r = positive_counts_preserved [OF p, where num = 1 and wfn = "[0, 0]" and mode = 1
      and ?S1.0 = ?S1 and K = "[((0, 0), 1)]" and ?S2.0 = ?S and allModes = "[[0]]"
      and ?S3.0 = ?S and ?S4.0 = ?S
      and U = "[1 / sqrt 2, 1 / sqrt 2, 1 / sqrt 2, - (1 / sqrt 2)]" and modes = "[0, 1]"
      and a = 0 and b = 1 and groups = "[[1]]" and facs = "[1]" and lmodes = "[0]"]
  show ?thesis
    unfolding Let_def using r p a c n e by simp
qed

text \<open>
  Claim C5 as stated fails for \<open>loss\<close>: the key that lost its photon keeps the entry of
  the mode, with occupation zero, next to the entry for the loss mode.
\<close>

theorem loss_exposes_zero_count:
  "positive_counts (terms \<lparr>terms = [([((0, 0), 1)], 1)], waves = [[0, 0]], basis = [[1]],
              get_ovlp = trivOvlF, tol = 1 / 10 ^ 9, lossMode = 12\<rparr>)
   \<and> terms (loss \<lparr>terms = [([((0, 0), 1)], 1)], waves = [[0, 0]], basis = [[1]],
              get_ovlp = trivOvlF, tol = 1 / 10 ^ 9, lossMode = 12\<rparr> [0])
       = [([((0, 0), 0), ((12, 0), 1)], 1)]
   \<and> \<not> positive_counts (terms (loss \<lparr>terms = [([((0, 0), 1)], 1)], waves = [[0, 0]],
              basis = [[1]], get_ovlp = trivOvlF, tol = 1 / 10 ^ 9, lossMode = 12\<rparr> [0]))"
proof -
  have k: "Key_loss [((0, 0), 1)] [0] 12 0 = ([([((0, 0), 0), ((12, 0), 1)], 1)], 13)"
    by (simp add: Key_loss_def loss_step_def)
  have l: "terms (loss \<lparr>terms = [([((0, 0), 1)], 1)], waves = [[0, 0]], basis = [[1]],
              get_ovlp = trivOvlF, tol = 1 / 10 ^ 9, lossMode = 12\<rparr> [0])
       = [([((0, 0), 0), ((12, 0), 1)], 1)]"
    by (simp add: loss_def loss_term_def k State_add_def clean_def)
  show ?thesis unfolding l by (simp add: positive_counts_def)
qed

section \<open>The two-mode unitary as a substitution\<close>

subsection \<open>The value of a key and of a map\<close>

lemma Key_val_Nil: "Key_val x [] = 1"
  by (simp add: Key_val_def)

lemma Key_val_Cons: "Key_val x ((k, n) # K) = x k ^ nat n * Key_val x K"
  by (simp add: Key_val_def)

lemma Key_val_insert_or_assign:
  "k \<notin> fst ` set K \<Longrightarrow> Key_val x (insert_or_assign k n K) = x k ^ nat n * Key_val x K"
  by (induction K) (auto simp: Key_val_def)

lemma Key_val_emplace_add:
  "list_all (\<lambda>e. 0 \<le> snd e) K \<Longrightarrow> 0 \<le> n \<Longrightarrow>
   Key_val x (emplace_add k n K) = x k ^ nat n * Key_val x K"
  by (induction K) (auto simp: Key_val_def nat_add_distrib power_add)

lemma emplace_add_nonneg:
  "list_all (\<lambda>e. 0 \<le> snd e) K \<Longrightarrow> 0 \<le> (n :: int) \<Longrightarrow>
   list_all (\<lambda>e. 0 \<le> snd e) (emplace_add k n K)"
  by (induction K) auto

lemma Key_add_nonneg:
  "list_all (\<lambda>e. 0 \<le> snd e) K \<Longrightarrow> list_all (\<lambda>e. 0 \<le> snd e) p \<Longrightarrow>
   list_all (\<lambda>e. 0 \<le> snd e) (Key_add K p)"
  unfolding Key_add_def
  by (induction p arbitrary: K) (auto simp: emplace_add_nonneg)

lemma Key_val_Key_add:
  "list_all (\<lambda>e. 0 \<le> snd e) K \<Longrightarrow> list_all (\<lambda>e. 0 \<le> snd e) p \<Longrightarrow>
   Key_val x (Key_add K p) = Key_val x K * Key_val x p"
  unfolding Key_add_def
proof (induction p arbitrary: K)
  case Nil
  then show ?case by (simp add: Key_val_Nil)
next
  case (Cons e p)
  obtain k n where e: "e = (k, n)" by (cases e)
  have n: "0 \<le> n" and p: "list_all (\<lambda>e. 0 \<le> snd e) p" using Cons.prems(2) by (simp_all add: e)
  have K': "list_all (\<lambda>e. 0 \<le> snd e) (emplace_add k n K)"
    using Cons.prems(1) n by (rule emplace_add_nonneg)
  show ?case
    using Cons.IH [OF K' p] Key_val_emplace_add [OF Cons.prems(1) n, of x k]
    by (simp add: e Key_val_Cons)
qed

lemma SD_val_Nil: "SD_val x [] = 0"
  by (simp add: SD_val_def)

lemma SD_val_Cons: "SD_val x ((K, v) # R) = v * Key_val x K + SD_val x R"
  by (simp add: SD_val_def)

lemma SD_val_emplace_add:
  "SD_val x (emplace_add K v R) = SD_val x R + v * Key_val x K"
  by (induction R) (auto simp: SD_val_def algebra_simps)

lemma SD_val_insert_or_assign:
  "K \<notin> fst ` set R \<Longrightarrow> SD_val x (insert_or_assign K v R) = SD_val x R + v * Key_val x K"
  by (induction R) (auto simp: SD_val_def)

lemma SD_val_fold_insert_or_assign:
  assumes "inj_on kf (set xs)" and "distinct xs" and "kf ` set xs \<inter> fst ` set R0 = {}"
  shows "SD_val x (fold (\<lambda>j R. insert_or_assign (kf j) (vf j) R) xs R0)
           = SD_val x R0 + (\<Sum>j\<leftarrow>xs. vf j * Key_val x (kf j))"
  using assms
proof (induction xs arbitrary: R0)
  case Nil
  then show ?case by simp
next
  case (Cons j xs)
  have new: "kf j \<notin> fst ` set R0" using Cons.prems(3) by auto
  have inj: "inj_on kf (set xs)" and dis: "distinct xs" and jn: "j \<notin> set xs"
    using Cons.prems(1,2) by (simp_all add: inj_on_def)
  have "kf j \<notin> kf ` set xs"
    using Cons.prems(1) jn by (auto simp: inj_on_def)
  then have d: "kf ` set xs \<inter> fst ` set (insert_or_assign (kf j) (vf j) R0) = {}"
    using Cons.prems(3) by (auto simp: insert_or_assign_keys)
  show ?case
    using Cons.IH [OF inj dis d] SD_val_insert_or_assign [OF new, of x "vf j"]
    by simp
qed

subsection \<open>The product of two maps\<close>

lemma SD_val_conv_inner:
  assumes Ki: "list_all (\<lambda>e. 0 \<le> snd e) Ki"
    and R: "list_all (\<lambda>t. list_all (\<lambda>e. 0 \<le> snd e) (fst t)) R"
  shows "SD_val x (fold (\<lambda>(Kr, vr) R2. emplace_add (Key_add Ki Kr) (vi * vr) R2) R acc)
           = SD_val x acc + vi * Key_val x Ki * SD_val x R"
  using R
proof (induction R arbitrary: acc)
  case Nil
  then show ?case by (simp add: SD_val_Nil)
next
  case (Cons t R)
  obtain Kr vr where t: "t = (Kr, vr)" by (cases t)
  have Kr: "list_all (\<lambda>e. 0 \<le> snd e) Kr"
    and R': "list_all (\<lambda>t. list_all (\<lambda>e. 0 \<le> snd e) (fst t)) R"
    using Cons.prems by (simp_all add: t)
  show ?case
    using Cons.IH [OF R', of "emplace_add (Key_add Ki Kr) (vi * vr) acc"]
    by (simp add: t SD_val_emplace_add SD_val_Cons Key_val_Key_add [OF Ki Kr] algebra_simps)
qed

lemma SD_val_apply_conv:
  assumes B: "list_all (\<lambda>t. list_all (\<lambda>e. 0 \<le> snd e) (fst t)) B"
    and R: "list_all (\<lambda>t. list_all (\<lambda>e. 0 \<le> snd e) (fst t)) R"
  shows "SD_val x (apply_conv B R) = SD_val x B * SD_val x R"
proof -
  have "SD_val x (fold (\<lambda>(Ki, vi) RetIter2.
                  fold (\<lambda>(Kr, vr) R2. emplace_add (Key_add Ki Kr) (vi * vr) R2) R RetIter2) B acc)
          = SD_val x acc + SD_val x B * SD_val x R" for acc
    using B
  proof (induction B arbitrary: acc)
    case Nil
    then show ?case by (simp add: SD_val_Nil)
  next
    case (Cons t B)
    obtain Ki vi where t: "t = (Ki, vi)" by (cases t)
    have Ki: "list_all (\<lambda>e. 0 \<le> snd e) Ki"
      and B': "list_all (\<lambda>t. list_all (\<lambda>e. 0 \<le> snd e) (fst t)) B"
      using Cons.prems by (simp_all add: t)
    show ?case
      using Cons.IH [OF B'] SD_val_conv_inner [OF Ki R, of x vi]
      by (simp add: t SD_val_Cons algebra_simps)
  qed
  from this [of "[]"] show ?thesis by (simp add: apply_conv_def SD_val_Nil)
qed

subsection \<open>Factorials and binomial coefficients up to 12\<close>

lemma facut_table: "k \<le> 12 \<Longrightarrow> facut (int k) = int (fact k)"
proof -
  assume "k \<le> 12"
  then have "k \<in> set [0..<13]" by simp
  then have "k \<in> {12, 11, 10, 9, 8, 7, 6, 5, 4, 3, 2, 1, 0}"
    by (simp add: upt_rec numeral_eq_Suc) blast
  then show ?thesis
    by (elim insertE emptyE) (simp_all add: facut.simps FACUT12_def fact_numeral)
qed

lemma facut_fact:
  assumes "0 \<le> n" and "n \<le> 12"
  shows "facut n = int (fact (nat n))"
  using facut_table [of "nat n"] assms by simp

lemma binomialCoeff_choose:
  assumes "0 \<le> j" and "j \<le> n" and "n \<le> 12"
  shows "binomialCoeff n j = real (nat n choose nat j)"
proof -
  have n: "0 \<le> n" using assms by simp
  have le: "nat j \<le> nat n" using assms by simp
  have f: "facut n = int (fact (nat n))" "facut j = int (fact (nat j))"
    "facut (n - j) = int (fact (nat n - nat j))"
    using assms facut_fact [of n] facut_fact [of j] facut_fact [of "n - j"]
    by (simp_all add: nat_diff_distrib)
  have "int (fact (nat n)) div (int (fact (nat j)) * int (fact (nat n - nat j)))
      = int (fact (nat n) div (fact (nat j) * fact (nat n - nat j)))"
    by (simp add: zdiv_int)
  also have "\<dots> = int (nat n choose nat j)"
  proof -
    have "fact (nat j) * fact (nat n - nat j) * (nat n choose nat j) = (fact (nat n) :: nat)"
      using le by (rule binomial_fact_lemma)
    then have "fact (nat n) div (fact (nat j) * fact (nat n - nat j)) = nat n choose nat j"
      by (metis fact_nonzero mult_eq_0_iff nonzero_mult_div_cancel_left)
    then show ?thesis by simp
  qed
  finally show ?thesis by (simp add: binomialCoeff_def f)
qed

lemma upto_map_int: "[0..int k] = map int [0..<Suc k]"
proof (induction k)
  case 0
  then show ?case by (simp add: upto_0_0)
next
  case (Suc k)
  have "[0..int (Suc k)] = [0..int k] @ [int (Suc k)]"
    using upto_rec2 [of 0 "int (Suc k)"] by simp
  then show ?case using Suc by simp
qed

subsection \<open>The branches of an entry\<close>

lemma Key_val_branch:
  assumes "a \<noteq> b" and "0 \<le> j" and "j \<le> n"
  shows "Key_val x (Key_clean (insert_or_assign (b, d) (n - j) (Key3 a d j)))
           = x (a, d) ^ nat j * x (b, d) ^ nat (n - j)"
  using assms by (auto simp: branch_key Key_val_def)

lemma SD_val_apply_branches:
  assumes ab: "a \<noteq> b" and n: "0 \<le> n" "n \<le> 12"
  shows "SD_val x (apply_branches U [a, b] i d n)
           = (U ! i * x (a, d) + U ! (i + 2) * x (b, d)) ^ nat n / sqrt (fact (nat n))"
proof -
  let ?kf = "\<lambda>j. Key_clean (insert_or_assign (b, d) (n - j) (Key3 a d j))"
  let ?A = "U ! i * x (a, d)" and ?B = "U ! (i + 2) * x (b, d)"
  define N where "N = nat n"
  have nN: "n = int N" using n by (simp add: N_def)
  have "SD_val x (apply_branches U [a, b] i d n)
      = SD_val x [] + (\<Sum>j\<leftarrow>[0..n]. apply_amp U i n j * Key_val x (?kf j))"
    unfolding apply_branches_def
    using SD_val_fold_insert_or_assign [OF branch_key_inj [OF ab, of d n] distinct_upto,
        of "[]" x "\<lambda>j. apply_amp U i n j"]
    by simp
  also have "\<dots> = (\<Sum>k\<leftarrow>[0..<Suc N]. apply_amp U i n (int k) * Key_val x (?kf (int k)))"
    by (simp add: SD_val_Nil nN upto_map_int o_def del: upt_Suc)
  also have "\<dots> = (\<Sum>k\<leftarrow>[0..<Suc N].
       real (N choose k) * ?A ^ k * ?B ^ (N - k) / sqrt (fact N))"
  proof (intro arg_cong [where f = sum_list] map_cong refl)
    fix k assume "k \<in> set [0..<Suc N]"
    then have k: "k \<le> N" by auto
    have r: "0 \<le> int k" "int k \<le> n" using k by (simp_all add: nN)
    have kv: "Key_val x (?kf (int k)) = x (a, d) ^ k * x (b, d) ^ (N - k)"
      using Key_val_branch [OF ab r, of x d] k by (simp add: nN nat_diff_distrib)
    have bc: "binomialCoeff n (int k) = real (N choose k)"
      using binomialCoeff_choose [OF r n(2)] by (simp add: nN)
    have fa: "real_of_int (facut n) = fact N"
      using facut_fact [OF n] by (simp add: N_def)
    have nk: "nat (n - int k) = N - k" using k by (simp add: nN)
    show "apply_amp U i n (int k) * Key_val x (?kf (int k))
        = real (N choose k) * ?A ^ k * ?B ^ (N - k) / sqrt (fact N)"
      by (simp add: apply_amp_def kv bc fa nk power_mult_distrib)
  qed
  also have "\<dots> = (\<Sum>k\<le>N. real (N choose k) * ?A ^ k * ?B ^ (N - k) / sqrt (fact N))"
    by (simp only: interv_sum_list_conv_sum_set_nat set_upt atLeast0LessThan lessThan_Suc_atMost)
  also have "\<dots> = (\<Sum>k\<le>N. real (N choose k) * ?A ^ k * ?B ^ (N - k)) / sqrt (fact N)"
    by (simp only: sum_divide_distrib)
  also have "\<dots> = (?A + ?B) ^ N / sqrt (fact N)"
    by (simp add: binomial_ring)
  finally show ?thesis by (simp add: N_def)
qed

subsection \<open>An entry at another mode\<close>

lemma SD_val_apply_pass:
  assumes ok: "fm_ok R" and free: "\<forall>K \<in> fst ` set R. (m, d) \<notin> fst ` set K"
  shows "SD_val x (apply_pass m d n R) = x (m, d) ^ nat n * SD_val x R"
proof -
  let ?kf = "\<lambda>t :: Key \<times> real. insert_or_assign (m, d) n (fst t)"
  have dm: "distinct (map fst R)" using ok by (rule fm_ok_distinct)
  then have dis: "distinct R" and injf: "inj_on fst (set R)" by (simp_all add: distinct_map)
  have inj: "inj_on ?kf (set R)"
  proof (rule inj_onI)
    fix s t assume s: "s \<in> set R" and t: "t \<in> set R" and eq: "?kf s = ?kf t"
    have "fst s = fst t"
      using insert_or_assign_inj_on [OF free, of n] s t eq by (auto simp: inj_on_def)
    then show "s = t" using injf s t by (auto simp: inj_on_def)
  qed
  have "SD_val x (apply_pass m d n R) = SD_val x [] + (\<Sum>t\<leftarrow>R. snd t * Key_val x (?kf t))"
    unfolding apply_pass_def case_prod_unfold
    by (rule SD_val_fold_insert_or_assign [OF inj dis]) simp
  also have "(\<Sum>t\<leftarrow>R. snd t * Key_val x (?kf t))
      = (\<Sum>t\<leftarrow>R. x (m, d) ^ nat n * (snd t * Key_val x (fst t)))"
  proof (intro arg_cong [where f = sum_list] map_cong refl)
    fix t assume "t \<in> set R"
    then have "(m, d) \<notin> fst ` set (fst t)" using free by auto
    then show "snd t * Key_val x (?kf t) = x (m, d) ^ nat n * (snd t * Key_val x (fst t))"
      by (simp add: Key_val_insert_or_assign)
  qed
  also have "\<dots> = x (m, d) ^ nat n * SD_val x R"
    by (simp add: SD_val_def sum_list_const_mult)
  finally show ?thesis by (simp add: SD_val_Nil)
qed

subsection \<open>What the loop keeps true\<close>

lemma apply_entry_fm_ok: "fm_ok (apply_entry U modes e R)"
  by (cases e) (auto simp: apply_entry_def apply_pass_fm_ok apply_conv_fm_ok)

lemma apply_entry_nonneg:
  assumes "0 \<le> snd e" and "list_all (\<lambda>t. list_all (\<lambda>e. 0 \<le> snd e) (fst t)) R"
  shows "list_all (\<lambda>t. list_all (\<lambda>e. 0 \<le> snd e) (fst t)) (apply_entry U modes e R)"
proof -
  obtain m d n where e: "e = ((m, d), n)" by (cases e) auto
  have n: "0 \<le> n" using assms(1) by (simp add: e)
  have R: "\<forall>K \<in> fst ` set R. list_all (\<lambda>e. 0 \<le> snd e) K"
    using assms(2) by (simp add: keys_all_iff)
  have pass: "list_all (\<lambda>t. list_all (\<lambda>e. 0 \<le> snd e) (fst t)) (apply_pass m d n R)"
    unfolding keys_all_iff apply_pass_keys using R n
    by (auto simp: insert_or_assign_vals_all)
  have B: "\<forall>K \<in> fst ` set (apply_branches U modes i d n). list_all (\<lambda>e. 0 \<le> snd e) K" for i
    using apply_branches_pos [of U modes i d n]
    by (auto simp: keys_all_iff list_all_iff less_imp_le)
  have conv: "list_all (\<lambda>t. list_all (\<lambda>e. 0 \<le> snd e) (fst t))
                (apply_conv (apply_branches U modes i d n) R)" for i
    unfolding keys_all_iff apply_conv_keys using R B [of i]
    by (auto simp: Key_add_nonneg)
  show ?thesis using pass conv by (simp add: e apply_entry_def)
qed

lemma apply_entry_pairs_ok:
  assumes ab: "a \<noteq> b" and p: "pairs_ok R pre a b"
  shows "pairs_ok (apply_entry U [a, b] ((m, d), n) R) (pre @ [((m, d), n)]) a b"
proof (cases "m \<noteq> a \<and> m \<noteq> b")
  case True
  have "\<forall>K \<in> fst ` set (apply_pass m d n R). \<forall>q \<in> fst ` set K.
          q \<in> fst ` set (pre @ [((m, d), n)]) \<or> fst q = a \<or> fst q = b"
  proof (intro ballI)
    fix K q assume K: "K \<in> fst ` set (apply_pass m d n R)" and q: "q \<in> fst ` set K"
    from K obtain Kr where Kr: "Kr \<in> fst ` set R" and eq: "K = insert_or_assign (m, d) n Kr"
      unfolding apply_pass_keys by blast
    from q have "q = (m, d) \<or> q \<in> fst ` set Kr" by (simp add: eq insert_or_assign_keys)
    then show "q \<in> fst ` set (pre @ [((m, d), n)]) \<or> fst q = a \<or> fst q = b"
    proof
      assume "q = (m, d)"
      then show ?thesis by simp
    next
      assume "q \<in> fst ` set Kr"
      then have "q \<in> fst ` set pre \<or> fst q = a \<or> fst q = b"
        using p Kr unfolding pairs_ok_def by blast
      then show ?thesis by auto
    qed
  qed
  then show ?thesis using True unfolding pairs_ok_def apply_entry_def by simp
next
  case False
  let ?B = "apply_branches U [a, b] (if m = a then 0 else 1) d n"
  have B: "\<forall>K \<in> fst ` set ?B. \<forall>p \<in> fst ` set K. fst p = a \<or> fst p = b"
    by (rule apply_branches_pairs [OF ab])
  have "\<forall>K \<in> fst ` set (apply_conv ?B R). \<forall>q \<in> fst ` set K.
          q \<in> fst ` set (pre @ [((m, d), n)]) \<or> fst q = a \<or> fst q = b"
  proof (intro ballI)
    fix K q assume K: "K \<in> fst ` set (apply_conv ?B R)" and q: "q \<in> fst ` set K"
    from K obtain Ki Kr where Ki: "Ki \<in> fst ` set ?B" and Kr: "Kr \<in> fst ` set R"
      and eq: "K = Key_add Ki Kr"
      unfolding apply_conv_keys by blast
    from q have "q \<in> fst ` set Ki \<or> q \<in> fst ` set Kr" by (simp add: eq Key_add_keys)
    then show "q \<in> fst ` set (pre @ [((m, d), n)]) \<or> fst q = a \<or> fst q = b"
    proof
      assume "q \<in> fst ` set Ki"
      then show ?thesis using B Ki by blast
    next
      assume "q \<in> fst ` set Kr"
      then have "q \<in> fst ` set pre \<or> fst q = a \<or> fst q = b"
        using p Kr unfolding pairs_ok_def by blast
      then show ?thesis by auto
    qed
  qed
  moreover have "apply_entry U [a, b] ((m, d), n) R = apply_conv ?B R"
    using False by (auto simp: apply_entry_def)
  ultimately show ?thesis unfolding pairs_ok_def by simp
qed

subsection \<open>The loop over the entries\<close>

lemma SD_val_apply_entry:
  assumes ab: "a \<noteq> b" and ok: "fm_ok R"
    and nn: "list_all (\<lambda>t. list_all (\<lambda>e. 0 \<le> snd e) (fst t)) R"
    and p: "pairs_ok R pre a b"
    and s: "fm_ok (pre @ [((m, d), n)])"
    and n: "0 \<le> n" "m = a \<or> m = b \<longrightarrow> n \<le> 12"
  shows "SD_val x (apply_entry U [a, b] ((m, d), n) R)
           = subst_entry U a b x ((m, d), n) * SD_val x R"
proof (cases "m \<noteq> a \<and> m \<noteq> b")
  case True
  have "(m, d) \<notin> fst ` set pre"
    using s by (auto simp: fm_ok_def sorted_wrt_append)
  have free: "\<forall>K \<in> fst ` set R. (m, d) \<notin> fst ` set K"
  proof
    fix K assume K: "K \<in> fst ` set R"
    show "(m, d) \<notin> fst ` set K"
    proof
      assume "(m, d) \<in> fst ` set K"
      then have "(m, d) \<in> fst ` set pre \<or> fst (m, d) = a \<or> fst (m, d) = b"
        using p K unfolding pairs_ok_def by blast
      then show False using True \<open>(m, d) \<notin> fst ` set pre\<close> by simp
    qed
  qed
  show ?thesis
    using True by (simp add: apply_entry_def subst_entry_def SD_val_apply_pass [OF ok free])
next
  case False
  then have n12: "n \<le> 12" using n(2) by auto
  let ?i = "if m = a then 0 else 1 :: nat"
  have B: "list_all (\<lambda>t. list_all (\<lambda>e. 0 \<le> snd e) (fst t)) (apply_branches U [a, b] ?i d n)"
    using apply_branches_pos [of U "[a, b]" ?i d n]
    by (auto simp: list_all_iff less_imp_le)
  have "apply_entry U [a, b] ((m, d), n) R = apply_conv (apply_branches U [a, b] ?i d n) R"
    using False by (auto simp: apply_entry_def)
  then have "SD_val x (apply_entry U [a, b] ((m, d), n) R)
      = SD_val x (apply_branches U [a, b] ?i d n) * SD_val x R"
    by (simp only: SD_val_apply_conv [OF B nn])
  also have "SD_val x (apply_branches U [a, b] ?i d n)
      = (U ! ?i * x (a, d) + U ! (?i + 2) * x (b, d)) ^ nat n / sqrt (fact (nat n))"
    by (rule SD_val_apply_branches [OF ab n(1) n12])
  also have "\<dots> = subst_entry U a b x ((m, d), n)"
    using False ab by (auto simp: subst_entry_def numeral_3_eq_3 numeral_2_eq_2)
  finally show ?thesis .
qed

lemma SD_val_apply_fold:
  assumes ab: "a \<noteq> b"
  shows "fm_ok R \<Longrightarrow> list_all (\<lambda>t. list_all (\<lambda>e. 0 \<le> snd e) (fst t)) R \<Longrightarrow>
     pairs_ok R pre a b \<Longrightarrow> fm_ok (pre @ es) \<Longrightarrow> list_all (\<lambda>e. 0 \<le> snd e) es \<Longrightarrow>
     list_all (\<lambda>e. fst (fst e) = a \<or> fst (fst e) = b \<longrightarrow> snd e \<le> 12) es \<Longrightarrow>
     SD_val x (fold (apply_entry U [a, b]) es R) = (\<Prod>e\<leftarrow>es. subst_entry U a b x e) * SD_val x R"
proof (induction es arbitrary: R pre)
  case Nil
  then show ?case by simp
next
  case (Cons e es)
  obtain m d n where e: "e = ((m, d), n)" by (cases e) auto
  let ?R = "apply_entry U [a, b] ((m, d), n) R"
  have s1: "fm_ok (pre @ [((m, d), n)])"
    using Cons.prems(4) by (simp add: e fm_ok_def sorted_wrt_append)
  have n: "0 \<le> n" "m = a \<or> m = b \<longrightarrow> n \<le> 12"
    using Cons.prems(5,6) by (simp_all add: e)
  have step: "SD_val x ?R = subst_entry U a b x ((m, d), n) * SD_val x R"
    by (rule SD_val_apply_entry [OF ab Cons.prems(1,2,3) s1 n])
  have ok': "fm_ok ?R" by (rule apply_entry_fm_ok)
  have nn': "list_all (\<lambda>t. list_all (\<lambda>e. 0 \<le> snd e) (fst t)) ?R"
    by (rule apply_entry_nonneg) (use n Cons.prems(2) in simp_all)
  have p': "pairs_ok ?R (pre @ [((m, d), n)]) a b"
    using ab Cons.prems(3) by (rule apply_entry_pairs_ok)
  have s2: "fm_ok ((pre @ [((m, d), n)]) @ es)" using Cons.prems(4) by (simp add: e)
  have r5: "list_all (\<lambda>e. 0 \<le> snd e) es"
    and r6: "list_all (\<lambda>e. fst (fst e) = a \<or> fst (fst e) = b \<longrightarrow> snd e \<le> 12) es"
    using Cons.prems(5,6) by simp_all
  show ?case
    using Cons.IH [OF ok' nn' p' s2 r5 r6] step by (simp add: e)
qed

lemma apply_fold_fm_ok: "fm_ok R \<Longrightarrow> fm_ok (fold (apply_entry U modes) K R)"
  by (induction K arbitrary: R) (simp_all add: apply_entry_fm_ok)

text \<open>
  Claim C2, as amended.  Let the two modes differ, and let the key be sorted with
  occupation numbers that are at least zero, and at most 12 at the two modes.  Then the
  map that the loop of \<open>Key::apply\<close> builds is, as a polynomial in the creation
  operators, the product over the entries of the key of \<open>(U[0] a' + U[2] b') ^ n / sqrt (n!)\<close>
  for an entry with \<open>n\<close> photons at \<open>a\<close>, of \<open>(U[1] a' + U[3] b') ^ n / sqrt (n!)\<close>
  for an entry at \<open>b\<close>, and of the entry itself at any other mode: the branch
  coefficients \<open>U[i] ^ j * C(n, j) * U[i+2] ^ (n - j) / sqrt (n!)\<close> of the code add up to
  these powers.  \<open>Key::apply\<close> returns the keys of this map whose amplitude exceeds the
  tolerance, each amplitude multiplied by the normalization factor of its key.  For \<open>U\<close>
  in line format the operator of \<open>a\<close> becomes \<open>U00 a' + U10 b'\<close> and the operator of
  \<open>b\<close> becomes \<open>U01 a' + U11 b'\<close>.
\<close>

theorem apply_linear_substitution:
  assumes ab: "a \<noteq> b" and ok: "fm_ok K"
    and nn: "list_all (\<lambda>e. 0 \<le> snd e) K"
    and le: "list_all (\<lambda>e. fst (fst e) = a \<or> fst (fst e) = b \<longrightarrow> snd e \<le> 12) K"
  shows "SD_val x (fold (apply_entry U [a, b]) K [([], 1)]) = (\<Prod>e\<leftarrow>K. subst_entry U a b x e)
     \<and> Key_apply K U [a, b] t =
         map (\<lambda>(K', v). (K', v * factor2 K' a b))
           (filter (\<lambda>(K', v). \<bar>v\<bar> > t) (fold (apply_entry U [a, b]) K [([], 1)]))"
proof -
  have ok0: "fm_ok [([] :: Key, 1 :: real)]" by (simp add: fm_ok_def)
  have nn0: "list_all (\<lambda>t. list_all (\<lambda>e. 0 \<le> snd e) (fst t)) [([] :: Key, 1 :: real)]" by simp
  have p0: "pairs_ok [([], 1)] [] a b" by (simp add: pairs_ok_def)
  have s: "fm_ok ([] @ K)" using ok by simp
  have "SD_val x (fold (apply_entry U [a, b]) K [([], 1)])
      = (\<Prod>e\<leftarrow>K. subst_entry U a b x e) * SD_val x [([], 1)]"
    by (rule SD_val_apply_fold [OF ab ok0 nn0 p0 s nn le])
  then have v: "SD_val x (fold (apply_entry U [a, b]) K [([], 1)])
      = (\<Prod>e\<leftarrow>K. subst_entry U a b x e)"
    by (simp add: SD_val_def Key_val_def)
  have "fm_ok (fold (apply_entry U [a, b]) K [([], 1)])"
    using ok0 by (rule apply_fold_fm_ok)
  then have "Key_apply K U [a, b] t =
         map (\<lambda>(K', v). (K', v * factor2 K' a b))
           (filter (\<lambda>(K', v). \<bar>v\<bar> > t) (fold (apply_entry U [a, b]) K [([], 1)]))"
    by (simp add: Key_apply_def apply_finish_sorted)
  with v show ?thesis by simp
qed

text \<open>
  The theorem at a key with two photons in one entry, for the balanced beam splitter;
  the creation operator of the pair \<open>(0, 1)\<close> has the value 2, every other one the
  value 1.
\<close>

theorem apply_linear_substitution_witness:
  "(0 :: int) \<noteq> 1
   \<and> fm_ok [((0 :: int, 0 :: int), 2 :: int), ((1, 1), 1), ((5, 0), 1)]
   \<and> list_all (\<lambda>e. 0 \<le> snd e) [((0 :: int, 0 :: int), 2 :: int), ((1, 1), 1), ((5, 0), 1)]
   \<and> list_all (\<lambda>e. snd e \<le> 12) [((0 :: int, 0 :: int), 2 :: int), ((1, 1), 1), ((5, 0), 1)]
   \<and> SD_val (\<lambda>p. if p = (0, 1) then 2 else 1)
        (fold (apply_entry [1 / sqrt 2, 1 / sqrt 2, 1 / sqrt 2, - (1 / sqrt 2)] [0, 1])
           [((0, 0), 2), ((1, 1), 1), ((5, 0), 1)] [([], 1)])
       = (1 / sqrt 2 * 1 + 1 / sqrt 2 * 1) ^ 2 / sqrt 2 * (1 / sqrt 2 * 2 + - (1 / sqrt 2) * 1)"
proof -
  let ?K = "[((0 :: int, 0 :: int), 2 :: int), ((1, 1), 1), ((5, 0), 1)]"
  have ab: "(0 :: int) \<noteq> 1" by simp
  have ok: "fm_ok ?K" by (simp add: fm_ok_def)
  have nn: "list_all (\<lambda>e. 0 \<le> snd e) ?K" by simp
  have le: "list_all (\<lambda>e. fst (fst e) = 0 \<or> fst (fst e) = 1 \<longrightarrow> snd e \<le> 12) ?K" by simp
  have le2: "list_all (\<lambda>e. snd e \<le> 12) ?K" by simp
  let ?x = "\<lambda>p :: int \<times> int. if p = (0, 1) then 2 else 1 :: real"
  let ?U = "[1 / sqrt 2, 1 / sqrt 2, 1 / sqrt 2, - (1 / sqrt 2)] :: real list"
  note r = conjunct1 [OF apply_linear_substitution [OF ab ok nn le, of ?x ?U 0]]
  have f2: "fact (nat 2) = (2 :: real)" by (simp add: fact_numeral)
  have p: "(\<Prod>e\<leftarrow>?K. subst_entry ?U 0 1 ?x e)
      = (1 / sqrt 2 * 1 + 1 / sqrt 2 * 1) ^ 2 / sqrt 2 * (1 / sqrt 2 * 2 + - (1 / sqrt 2) * 1)"
    by (simp add: subst_entry_def f2 numeral_3_eq_3)
  have c: "SD_val ?x (fold (apply_entry ?U [0, 1]) ?K [([], 1)])
      = (1 / sqrt 2 * 1 + 1 / sqrt 2 * 1) ^ 2 / sqrt 2 * (1 / sqrt 2 * 2 + - (1 / sqrt 2) * 1)"
    using r p by (rule trans)
  show ?thesis by (intro conjI ab ok nn le2 c)
qed

text \<open>
  Claim C2 as stated fails in the order of the coefficients: for \<open>U = [0, 1, -1, 0]\<close>
  a photon at mode 0 is moved to mode 1 with the amplitude \<open>U[2] = U10 = -1\<close>, while
  the substitution of the specification gives it the amplitude \<open>U01 = 1\<close>.
\<close>

theorem apply_substitutes_by_columns:
  "Key_apply [((0, 0), 1)] [0, 1, - 1, 0] [0, 1] (1 / 10 ^ 9) = [([((1, 0), 1)], - 1)]
   \<and> SD_val (\<lambda>p. 1) (fold (apply_entry [0, 1, - 1, 0] [0, 1]) [((0, 0), 1)] [([], 1)]) = - 1
   \<and> (\<Prod>e\<leftarrow>[((0, 0), 1)]. subst_entry_rows [0, 1, - 1, 0] 0 1 (\<lambda>p. 1) e) = 1"
proof -
  have ab: "(0 :: int) \<noteq> 1" by simp
  have B: "apply_branches [0, 1, - 1, 0] [0, 1] 0 0 1 = [([((0, 0), 1)], 0), ([((1, 0), 1)], - 1)]"
    by (simp add: apply_branches_1 [OF ab] numeral_2_eq_2)
  have ok: "fm_ok [([((0 :: int, 0 :: int), 1 :: int)], 0 :: real), ([((1, 0), 1)], - 1)]"
    by (simp add: fm_ok_def)
  have r: "fold (apply_entry [0, 1, - 1, 0] [0, 1]) [((0, 0), 1)] [([], 1)]
      = [([((0, 0), 1)], 0), ([((1, 0), 1)], - 1)]"
    by (simp add: apply_entry_def B apply_conv_one_sorted [OF ok])
  have f: "factor2 [((1, 0), 1)] 0 1 = 1" by (simp add: factor2_def facut_1)
  have "Key_apply [((0, 0), 1)] [0, 1, - 1, 0] [0, 1] (1 / 10 ^ 9) = [([((1, 0), 1)], - 1)]"
    unfolding Key_apply_def r apply_finish_sorted [OF ok] by (simp add: f)
  moreover have "SD_val (\<lambda>p. 1) (fold (apply_entry [0, 1, - 1, 0] [0, 1]) [((0, 0), 1)] [([], 1)]) = - 1"
    unfolding r by (simp add: SD_val_def Key_val_def)
  moreover have "(\<Prod>e\<leftarrow>[((0, 0), 1)]. subst_entry_rows [0, 1, - 1, 0] 0 1 (\<lambda>p. 1) e) = 1"
    by (simp add: subst_entry_rows_def)
  ultimately show ?thesis by simp
qed

end
